theory Spec2Isabelle
  imports Complex_Main
begin

section \<open>Scalars\<close>

text \<open>
  The notebooks compute in floating point.  The GMRES code is modelled over exact reals:
  rounding and overflow are not part of this model.  The reals have no infinities and no
  NaN, and HOL's \<open>x / 0 = 0\<close> is not what a floating-point division by zero yields.  The
  triangular solver, whose result at a zero pivot is specified, is therefore defined for
  any scalar type, and besides the reals it is run over the scalars \<open>xreal\<close>: the reals
  with \<open>+\<infinity>\<close>, \<open>-\<infinity>\<close> and NaN, and the arithmetic of IEEE 754 on them (exact on finite
  values).  The sign of a zero is not modelled: zero divides like \<open>+0\<close>, so the sign of an
  infinity that comes from a division by \<open>-0\<close> differs from the floating-point one.
\<close>

datatype xreal = Fin real | PInf | MInf | NaN

instantiation xreal :: "{zero, plus, uminus, minus, times, inverse}"
begin

definition zero_xreal :: xreal where
  "zero_xreal = Fin 0"

fun plus_xreal :: "xreal \<Rightarrow> xreal \<Rightarrow> xreal" where
  "plus_xreal NaN y = NaN"
| "plus_xreal x NaN = NaN"
| "plus_xreal PInf MInf = NaN"
| "plus_xreal MInf PInf = NaN"
| "plus_xreal PInf y = PInf"
| "plus_xreal x PInf = PInf"
| "plus_xreal MInf y = MInf"
| "plus_xreal x MInf = MInf"
| "plus_xreal (Fin a) (Fin b) = Fin (a + b)"

fun uminus_xreal :: "xreal \<Rightarrow> xreal" where
  "uminus_xreal (Fin a) = Fin (- a)"
| "uminus_xreal PInf = MInf"
| "uminus_xreal MInf = PInf"
| "uminus_xreal NaN = NaN"

definition minus_xreal :: "xreal \<Rightarrow> xreal \<Rightarrow> xreal" where
  "minus_xreal x y = x + (- y)"

fun times_xreal :: "xreal \<Rightarrow> xreal \<Rightarrow> xreal" where
  "times_xreal NaN y = NaN"
| "times_xreal x NaN = NaN"
| "times_xreal (Fin a) (Fin b) = Fin (a * b)"
| "times_xreal (Fin a) PInf = (if a = 0 then NaN else if 0 < a then PInf else MInf)"
| "times_xreal (Fin a) MInf = (if a = 0 then NaN else if 0 < a then MInf else PInf)"
| "times_xreal PInf (Fin b) = (if b = 0 then NaN else if 0 < b then PInf else MInf)"
| "times_xreal MInf (Fin b) = (if b = 0 then NaN else if 0 < b then MInf else PInf)"
| "times_xreal PInf PInf = PInf"
| "times_xreal PInf MInf = MInf"
| "times_xreal MInf PInf = MInf"
| "times_xreal MInf MInf = PInf"

fun divide_xreal :: "xreal \<Rightarrow> xreal \<Rightarrow> xreal" where
  "divide_xreal NaN y = NaN"
| "divide_xreal x NaN = NaN"
| "divide_xreal (Fin a) (Fin b) =
     (if b = 0 then (if a = 0 then NaN else if 0 < a then PInf else MInf) else Fin (a / b))"
| "divide_xreal (Fin a) PInf = Fin 0"
| "divide_xreal (Fin a) MInf = Fin 0"
| "divide_xreal PInf (Fin b) = (if 0 \<le> b then PInf else MInf)"
| "divide_xreal MInf (Fin b) = (if 0 \<le> b then MInf else PInf)"
| "divide_xreal PInf PInf = NaN"
| "divide_xreal PInf MInf = NaN"
| "divide_xreal MInf PInf = NaN"
| "divide_xreal MInf MInf = NaN"

fun inverse_xreal :: "xreal \<Rightarrow> xreal" where
  "inverse_xreal (Fin a) = (if a = 0 then PInf else Fin (1 / a))"
| "inverse_xreal PInf = Fin 0"
| "inverse_xreal MInf = Fin 0"
| "inverse_xreal NaN = NaN"

instance ..

end

text \<open>
  Addition of extended scalars is commutative and associative with neutral element zero,
  so the sum of a list does not depend on the order \<open>torch.sum\<close> adds in.
\<close>

lemma xreal_add_commute: "u + v = v + u" for u v :: xreal
  by (cases u; cases v) simp_all

lemma xreal_add_assoc: "(u + v) + w = u + (v + w)" for u v w :: xreal
  by (cases u; cases v; cases w) simp_all

lemma xreal_zero_add: "0 + u = u" for u :: xreal
  by (cases u) (simp_all add: zero_xreal_def)

instance xreal :: comm_monoid_add
  by standard (rule xreal_add_assoc xreal_add_commute xreal_zero_add)+

text \<open>What \<open>torch.isfinite\<close> tests.\<close>

definition is_finite :: "xreal \<Rightarrow> bool" where
  "is_finite x = (case x of Fin a \<Rightarrow> True | _ \<Rightarrow> False)"

section \<open>Tensors\<close>

text \<open>
  The notebooks compute on numpy arrays and torch tensors.  A one-dimensional tensor is a
  list of scalars; a two-dimensional tensor carries its shape and its entries, as a tensor
  does (a matrix with no rows still has a number of columns).  \<open>vec\<close> and \<open>mat\<close> are the
  tensors of reals.  The tensor library's own shape and index errors are not modelled; the
  operations below are the total functions they are on well-shaped arguments.
\<close>

type_synonym vec = "real list"

record 'a matrix =
  nrows :: nat
  ncols :: nat
  entry :: "nat \<Rightarrow> nat \<Rightarrow> 'a"

type_synonym mat = "real matrix"

definition mat_of_rows :: "'a list list \<Rightarrow> 'a matrix" where
  "mat_of_rows rs = \<lparr>nrows = length rs, ncols = (if rs = [] then 0 else length (hd rs)),
                     entry = (\<lambda>i j. rs ! i ! j)\<rparr>"

text \<open>A matrix of reals read as a matrix of extended scalars.\<close>

definition fin_matrix :: "mat \<Rightarrow> xreal matrix" where
  "fin_matrix A = \<lparr>nrows = nrows A, ncols = ncols A, entry = (\<lambda>i j. Fin (entry A i j))\<rparr>"

definition zeros :: "nat \<Rightarrow> 'a::zero list" where
  "zeros n = replicate n 0"

definition zeros_like :: "vec \<Rightarrow> vec" where
  "zeros_like b = zeros (length b)"

definition zeros_mat :: "nat \<Rightarrow> nat \<Rightarrow> mat" where
  "zeros_mat r c = \<lparr>nrows = r, ncols = c, entry = (\<lambda>i j. 0)\<rparr>"

text \<open>\<open>A[i, s:]\<close>, \<open>A[i]\<close> and \<open>A[:, j]\<close>.\<close>

definition row_from :: "'a matrix \<Rightarrow> nat \<Rightarrow> nat \<Rightarrow> 'a list" where
  "row_from A i s = map (entry A i) [s..<ncols A]"

definition row :: "mat \<Rightarrow> nat \<Rightarrow> vec" where
  "row A i = row_from A i 0"

definition col :: "mat \<Rightarrow> nat \<Rightarrow> vec" where
  "col A j = map (\<lambda>i. entry A i j) [0..<nrows A]"

text \<open>
  \<open>torch.cat((V, W), dim=1)\<close>, the assignments \<open>V[:, j] = v\<close> and \<open>H[:m, j] = v\<close>,
  and the slices \<open>H[:m, :c]\<close>, \<open>V[:, :c]\<close> and \<open>R[:-1, :]\<close>.
\<close>

definition cat_cols :: "mat \<Rightarrow> mat \<Rightarrow> mat" where
  "cat_cols V W = \<lparr>nrows = nrows V, ncols = ncols V + ncols W,
     entry = (\<lambda>i j. if j < ncols V then entry V i j else entry W i (j - ncols V))\<rparr>"

definition set_col_prefix :: "mat \<Rightarrow> nat \<Rightarrow> nat \<Rightarrow> vec \<Rightarrow> mat" where
  "set_col_prefix H m j v =
     H\<lparr>entry := (\<lambda>i c. if c = j \<and> i < m \<and> i < length v then v ! i else entry H i c)\<rparr>"

definition set_col :: "mat \<Rightarrow> nat \<Rightarrow> vec \<Rightarrow> mat" where
  "set_col V j v = set_col_prefix V (nrows V) j v"

definition block :: "mat \<Rightarrow> nat \<Rightarrow> nat \<Rightarrow> mat" where
  "block H m c = \<lparr>nrows = min m (nrows H), ncols = min c (ncols H), entry = entry H\<rparr>"

definition block_cols :: "mat \<Rightarrow> nat \<Rightarrow> mat" where
  "block_cols V c = block V (nrows V) c"

definition drop_last_row :: "mat \<Rightarrow> mat" where
  "drop_last_row R = R\<lparr>nrows := nrows R - 1\<rparr>"

text \<open>Elementwise product, \<open>torch.sum\<close>, \<open>torch.dot\<close>, the 2-norm, and \<open>A @ x\<close>.\<close>

definition vmul :: "'a::times list \<Rightarrow> 'a list \<Rightarrow> 'a list" where
  "vmul u v = map2 (*) u v"

definition vsum :: "'a::monoid_add list \<Rightarrow> 'a" where
  "vsum v = sum_list v"

definition dot :: "vec \<Rightarrow> vec \<Rightarrow> real" where
  "dot u v = vsum (vmul u v)"

definition norm2 :: "vec \<Rightarrow> real" where
  "norm2 v = sqrt (vsum (vmul v v))"

definition matvec :: "mat \<Rightarrow> vec \<Rightarrow> vec" where
  "matvec A x = map (\<lambda>i. dot (row A i) x) [0..<nrows A]"

definition vadd :: "vec \<Rightarrow> vec \<Rightarrow> vec" where
  "vadd u v = map2 (+) u v"

definition vsub :: "vec \<Rightarrow> vec \<Rightarrow> vec" where
  "vsub u v = map2 (-) u v"

definition smul :: "real \<Rightarrow> vec \<Rightarrow> vec" where
  "smul c v = map (\<lambda>x. c * x) v"

definition sdiv :: "vec \<Rightarrow> real \<Rightarrow> vec" where
  "sdiv v c = map (\<lambda>x. x / c) v"

section \<open>Errors\<close>

text \<open>
  The exceptions the code can raise: the \<open>ValueError\<close> of \<open>back_substitution\<close> with its
  message, Python's \<open>UnboundLocalError\<close> for a local variable read before any assignment
  to it, with the variable's name, and the \<open>IndexError\<close> of a write to an array at an
  index past its end.
\<close>

datatype error = ValueError string | UnboundLocalError string | IndexError

section \<open>Triangular solver\<close>

text \<open>
  \<^verbatim>\<open>
  def back_substitution(A, b):
      n = b.size(0)
      if A.size(0) != n or A.size(1) != n:
          raise ValueError("Matrix A must be square.")
      if A.size(0) != b.size(0):
          raise ValueError("Dimensions of A and b are incompatible.")
      x = torch.zeros(n, dtype=b.dtype)
      for i in range(n - 1, -1, -1):
          x[i] = (b[i] - torch.sum(A[i, i+1:] * x[i+1:])) / A[i, i]
      return x
  \<close>
\<close>

definition bs_step ::
  "'a::{monoid_add,minus,times,inverse} matrix \<Rightarrow> 'a list \<Rightarrow> 'a list \<Rightarrow> nat \<Rightarrow> 'a list" where
  "bs_step A b x i =
     x[i := (b ! i - vsum (vmul (row_from A i (i + 1)) (drop (i + 1) x))) / entry A i i]"

definition back_substitution ::
  "'a::{monoid_add,minus,times,inverse} matrix \<Rightarrow> 'a list \<Rightarrow> error + 'a list" where
  "back_substitution A b =
     (let n = length b in
      if nrows A \<noteq> n \<or> ncols A \<noteq> n then Inl (ValueError ''Matrix A must be square.'')
      else if nrows A \<noteq> length b
        then Inl (ValueError ''Dimensions of A and b are incompatible.'')
      else Inr (foldl (bs_step A b) (zeros n) (rev [0..<n])))"

text \<open>The property of the argument the solver's documentation asks for.\<close>

definition upper_triangular :: "mat \<Rightarrow> bool" where
  "upper_triangular A = (\<forall>i < nrows A. \<forall>j < i. entry A i j = 0)"

definition nonzero_diagonal :: "mat \<Rightarrow> bool" where
  "nonzero_diagonal A = (\<forall>i < nrows A. entry A i i \<noteq> 0)"


section \<open>Arnoldi step\<close>

text \<open>
  \<^verbatim>\<open>
  def arnoldi_one_iter(prec, A, V, k, tol=1e-12):
      h_k = torch.zeros((k + 2, ))
      v_new = prec(A@V[:, k])
      for j in range(k + 1):
          h_k[j] = torch.dot(v_new, V[:, j])
          v_new = v_new - h_k[j] * V[:, j]
      h_k[k + 1] = torch.norm(v_new, p = 2)
      if h_k[k + 1] <= tol:
          return h_k, None
      else:
          v_new = v_new / h_k[k + 1]
      return h_k, v_new
  \<close>
  The numpy version of the Arnoldi notebook is the same function without the
  preconditioner, that is, with \<open>prec\<close> the identity.
\<close>

definition default_tol :: real where
  "default_tol = 1 / 10 ^ 12"

definition gs_step :: "mat \<Rightarrow> vec \<times> vec \<Rightarrow> nat \<Rightarrow> vec \<times> vec" where
  "gs_step V s j =
     (let (h_k, v_new) = s;
          h_k = h_k[j := dot v_new (col V j)];
          v_new = vsub v_new (smul (h_k ! j) (col V j))
      in (h_k, v_new))"

definition arnoldi_one_iter ::
  "(vec \<Rightarrow> vec) \<Rightarrow> mat \<Rightarrow> mat \<Rightarrow> nat \<Rightarrow> real \<Rightarrow> vec \<times> vec option" where
  "arnoldi_one_iter prec A V k tol =
     (let h_k = zeros (k + 2);
          v_new = prec (matvec A (col V k));
          (h_k, v_new) = foldl (gs_step V) (h_k, v_new) [0..<k + 1];
          h_k = h_k[k + 1 := norm2 v_new]
      in if h_k ! (k + 1) \<le> tol then (h_k, None)
         else (h_k, Some (sdiv v_new (h_k ! (k + 1)))))"

text \<open>
  The Arnoldi step in the words of its specification: starting from \<open>w = Op(V[:, k])\<close>,
  for \<open>j = 0, 1, \<dots>\<close> the coefficient is \<open>h[j] = \<langle>w, V[:, j]\<rangle>\<close> and \<open>w\<close> becomes
  \<open>w - h[j] V[:, j]\<close>.  \<open>orthogonalize V w j\<close> is \<open>w\<close> after the columns \<open>0, \<dots>, j - 1\<close>.
\<close>

fun orthogonalize :: "mat \<Rightarrow> vec \<Rightarrow> nat \<Rightarrow> vec" where
  "orthogonalize V w 0 = w"
| "orthogonalize V w (Suc j) =
     (let w' = orthogonalize V w j in vsub w' (smul (dot w' (col V j)) (col V j)))"

definition orthonormal_cols :: "mat \<Rightarrow> nat \<Rightarrow> bool" where
  "orthonormal_cols V m = (\<forall>i<m. \<forall>j<m. dot (col V i) (col V j) = (if i = j then 1 else 0))"

section \<open>GMRES driver\<close>

text \<open>
  The local variables of \<open>precon_GMRES_restarted\<close> that live across iterations.  \<open>xk\<close>
  is bound by the first iteration only, so it is optional here.
\<close>

record gmres_state =
  st_x0 :: vec
  st_p0 :: real
  st_beta :: real
  st_pk :: real
  st_k :: nat
  st_total_k :: nat
  st_error_list :: "real list"
  st_V :: mat
  st_H :: mat
  st_xk :: "vec option"

text \<open>
  The statements before the loop:
  \<^verbatim>\<open>
      r0 = b - A@x0
      r0 = prec(r0)
      p0 = torch.norm(r0)
      beta = p0.clone(); pk = p0.clone(); k = 0; total_k = 0
      error_list = [pk]
      V = torch.zeros((n, 1)); V[:, 0] = r0 / beta
      H = torch.zeros((n + 1, 1))
  \<close>
\<close>

definition gmres_init :: "(vec \<Rightarrow> vec) \<Rightarrow> mat \<Rightarrow> vec \<Rightarrow> nat \<Rightarrow> vec \<Rightarrow> gmres_state" where
  "gmres_init prec A b n x0 =
     (let r0 = vsub b (matvec A x0);
          r0 = prec r0;
          p0 = norm2 r0
      in \<lparr>st_x0 = x0, st_p0 = p0, st_beta = p0, st_pk = p0, st_k = 0, st_total_k = 0,
          st_error_list = [p0], st_V = set_col (zeros_mat n 1) 0 (sdiv r0 p0),
          st_H = zeros_mat (n + 1) 1, st_xk = None\<rparr>)"

text \<open>
  The restart block at the end of the loop body, entered with the iterate \<open>xk\<close> just
  computed:
  \<^verbatim>\<open>
          if restart is not None and k == restart:
              x0 = xk
              r0 = b - A@x0
              r0 = prec(r0)
              p0 = torch.norm(r0)
              beta = p0; pk = p0; k = 0
              V = torch.zeros((n, 1)); V[:, 0] = r0 / beta
              H = torch.zeros((n + 1, 1))
  \<close>
\<close>

definition gmres_restart ::
  "(vec \<Rightarrow> vec) \<Rightarrow> mat \<Rightarrow> vec \<Rightarrow> nat \<Rightarrow> vec \<Rightarrow> gmres_state \<Rightarrow> gmres_state" where
  "gmres_restart prec A b n xk s =
     (let x0 = xk;
          r0 = vsub b (matvec A x0);
          r0 = prec r0;
          p0 = norm2 r0
      in s\<lparr>st_x0 := x0, st_p0 := p0, st_beta := p0, st_pk := p0, st_k := 0,
           st_V := set_col (zeros_mat n 1) 0 (sdiv r0 p0), st_H := zeros_mat (n + 1) 1\<rparr>)"

text \<open>
  One pass through the loop body.  \<open>qr\<close> stands for the library routine
  \<open>lg.qr(_, mode = 'complete')\<close>, which is not code of the notebooks; the driver is
  parametrised by it.  The only exception the body can raise is the one of
  \<open>back_substitution\<close>.  The \<open>print\<close> of the breakdown branch is not modelled.
  \<^verbatim>\<open>
          V = torch.cat((V, torch.zeros((n, 1))), dim=1)
          H = torch.cat((H, torch.zeros((n + 1, 1))), dim=1)
          H[:k + 2, k], v_new = arnoldi_one_iter(prec, A, V, k)
          if v_new is None:
              print("ENCOUNTER EXACT SOLUTION")
              error_list.append(0)
          else:
              V[:, k + 1] = v_new
          Q, R = lg.qr(H[:k + 2, :k + 1], mode = 'complete')
          pk = abs(beta * Q[0, k])
          error_list.append(pk)
          yk = back_substitution(R[:-1, :], beta * Q[0][:-1])
          xk = x0 + V[:, :k + 1]@yk
          k += 1
          total_k += 1
  \<close>
\<close>

definition gmres_iteration ::
  "(mat \<Rightarrow> mat \<times> mat) \<Rightarrow> (vec \<Rightarrow> vec) \<Rightarrow> mat \<Rightarrow> vec \<Rightarrow> nat \<Rightarrow> int option \<Rightarrow> gmres_state
     \<Rightarrow> error + gmres_state" where
  "gmres_iteration qr prec A b n restart s =
     (let k = st_k s;
          V = cat_cols (st_V s) (zeros_mat n 1);
          H = cat_cols (st_H s) (zeros_mat (n + 1) 1);
          (h_k, v_new) = arnoldi_one_iter prec A V k default_tol;
          H = set_col_prefix H (k + 2) k h_k;
          (error_list, V) =
            (case v_new of
               None \<Rightarrow> (st_error_list s @ [0], V)
             | Some v \<Rightarrow> (st_error_list s, set_col V (k + 1) v));
          (Q, R) = qr (block H (k + 2) (k + 1));
          pk = \<bar>st_beta s * entry Q 0 k\<bar>;
          error_list = error_list @ [pk]
      in case back_substitution (drop_last_row R) (smul (st_beta s) (butlast (row Q 0))) of
           Inl e \<Rightarrow> Inl e
         | Inr yk \<Rightarrow>
             (let xk = vadd (st_x0 s) (matvec (block_cols V (k + 1)) yk);
                  k = k + 1;
                  total_k = st_total_k s + 1;
                  s = s\<lparr>st_pk := pk, st_k := k, st_total_k := total_k,
                        st_error_list := error_list, st_V := V, st_H := H, st_xk := Some xk\<rparr>
              in if (case restart of None \<Rightarrow> False | Some r \<Rightarrow> int k = r)
                 then Inr (gmres_restart prec A b n xk s)
                 else Inr s))"

lemma gmres_iteration_total_k:
  "gmres_iteration qr prec A b n restart s = Inr s' \<Longrightarrow> st_total_k s' = Suc (st_total_k s)"
  by (auto simp: gmres_iteration_def gmres_restart_def Let_def case_prod_beta
           split: sum.splits if_splits option.splits)

text \<open>
  \<^verbatim>\<open>
      while pk > epsilon * p0 and total_k < k_max:
          ...
  \<close>
\<close>

function gmres_loop ::
  "(mat \<Rightarrow> mat \<times> mat) \<Rightarrow> (vec \<Rightarrow> vec) \<Rightarrow> mat \<Rightarrow> vec \<Rightarrow> nat \<Rightarrow> int \<Rightarrow> int option \<Rightarrow> real
     \<Rightarrow> gmres_state \<Rightarrow> error + gmres_state" where
  "gmres_loop qr prec A b n k_max restart epsilon s =
     (if st_pk s > epsilon * st_p0 s \<and> int (st_total_k s) < k_max
      then (case gmres_iteration qr prec A b n restart s of
              Inl e \<Rightarrow> Inl e
            | Inr s' \<Rightarrow> gmres_loop qr prec A b n k_max restart epsilon s')
      else Inr s)"
  by pat_completeness auto
termination
  by (relation "measure (\<lambda>(qr, prec, A, b, n, k_max, restart, epsilon, s).
        nat (k_max - int (st_total_k s)))")
     (auto dest: gmres_iteration_total_k)

declare gmres_loop.simps [simp del]

text \<open>
  \<^verbatim>\<open>
  def precon_GMRES_restarted(prec, A, b, x0 = None, k_max = None, restart = None,
                             epsilon = 1e-12):
      x0 = x0 if x0 is not None else torch.zeros_like(b)
      n = A.shape[0]
      if k_max is None or k_max > n:
          k_max = n
      ...
      return xk, error_list, total_k
  \<close>
  The \<open>return\<close> reads \<open>xk\<close>, which no statement outside the loop body assigns.
\<close>

definition default_epsilon :: real where
  "default_epsilon = 1 / 10 ^ 12"

definition precon_GMRES_restarted ::
  "(mat \<Rightarrow> mat \<times> mat) \<Rightarrow> (vec \<Rightarrow> vec) \<Rightarrow> mat \<Rightarrow> vec \<Rightarrow> vec option \<Rightarrow> int option \<Rightarrow> int option
     \<Rightarrow> real \<Rightarrow> error + vec \<times> real list \<times> nat" where
  "precon_GMRES_restarted qr prec A b x0 k_max restart epsilon =
     (let x0 = (case x0 of Some x \<Rightarrow> x | None \<Rightarrow> zeros_like b);
          n = nrows A;
          k_max = (case k_max of None \<Rightarrow> int n | Some m \<Rightarrow> if m > int n then int n else m)
      in case gmres_loop qr prec A b n k_max restart epsilon (gmres_init prec A b n x0) of
           Inl e \<Rightarrow> Inl e
         | Inr s \<Rightarrow>
             (case st_xk s of
                None \<Rightarrow> Inl (UnboundLocalError ''xk'')
              | Some xk \<Rightarrow> Inr (xk, st_error_list s, st_total_k s)))"


text \<open>What the \<open>return\<close> statement reads from the state.\<close>

definition returned :: "gmres_state \<Rightarrow> vec option \<times> real list \<times> nat" where
  "returned s = (st_xk s, st_error_list s, st_total_k s)"

text \<open>
  The shape of the state at the head of the loop while no restart has happened: both
  counters agree, and \<open>H\<close> has \<open>n + 1\<close> rows and one column more than iterations done.
\<close>

definition well_shaped :: "nat \<Rightarrow> gmres_state \<Rightarrow> bool" where
  "well_shaped n s \<longleftrightarrow>
     st_k s = st_total_k s \<and> nrows (st_H s) = n + 1 \<and> ncols (st_H s) = st_k s + 1 \<and>
     0 \<le> st_pk s"

section \<open>The QR routine and the least-squares problem\<close>

text \<open>
  Modelled from the spec: the library routine \<open>lg.qr(H, mode = 'complete')\<close> is not code
  of the notebooks; the spec's Least-Squares Residual Minimizer describes what it returns:
  for \<open>H\<close> with \<open>m\<close> rows and \<open>c\<close> columns, a factorization \<open>H = Q R\<close> with \<open>Q\<close> an
  orthogonal \<open>m \<times> m\<close> matrix and \<open>R\<close> an upper-trapezoidal \<open>m \<times> c\<close> matrix.
\<close>

definition orthogonal :: "mat \<Rightarrow> bool" where
  "orthogonal Q =
     (nrows Q = ncols Q \<and>
      (\<forall>i<ncols Q. \<forall>j<ncols Q.
         (\<Sum>l<nrows Q. entry Q l i * entry Q l j) = (if i = j then 1 else 0)) \<and>
      (\<forall>i<nrows Q. \<forall>j<nrows Q.
         (\<Sum>l<ncols Q. entry Q i l * entry Q j l) = (if i = j then 1 else 0)))"

definition is_complete_qr :: "mat \<Rightarrow> mat \<times> mat \<Rightarrow> bool" where
  "is_complete_qr H QR =
     (let (Q, R) = QR
      in nrows Q = nrows H \<and> ncols Q = nrows H \<and> nrows R = nrows H \<and> ncols R = ncols H \<and>
         orthogonal Q \<and> upper_triangular R \<and>
         (\<forall>i<nrows H. \<forall>j<ncols H. entry H i j = (\<Sum>l<nrows H. entry Q i l * entry R l j)))"

text \<open>The part of that contract the driver's control flow depends on: the shapes.\<close>

definition qr_shapes :: "(mat \<Rightarrow> mat \<times> mat) \<Rightarrow> bool" where
  "qr_shapes qr =
     (\<forall>H. nrows (fst (qr H)) = nrows H \<and> ncols (fst (qr H)) = nrows H \<and>
          nrows (snd (qr H)) = nrows H \<and> ncols (snd (qr H)) = ncols H)"

text \<open>
  A routine with the right shapes, for running the driver on concrete inputs: it returns
  the identity and its argument, which is a complete QR factorization whenever the
  argument is upper trapezoidal already.
\<close>

definition identity_mat :: "nat \<Rightarrow> mat" where
  "identity_mat n = \<lparr>nrows = n, ncols = n, entry = (\<lambda>i j. if i = j then 1 else 0)\<rparr>"

definition qr_trivial :: "mat \<Rightarrow> mat \<times> mat" where
  "qr_trivial H = (identity_mat (nrows H), H)"

text \<open>
  Modelled from the spec: the objective \<open>\<parallel>\<beta> e\<^sub>1 - H y\<parallel>\<close> of the least-squares problem whose
  minimum the driver's residual estimate stands for.
\<close>

definition unit_vec :: "nat \<Rightarrow> nat \<Rightarrow> vec" where
  "unit_vec n i = map (\<lambda>j. if j = i then 1 else 0) [0..<n]"

definition ls_residual :: "real \<Rightarrow> mat \<Rightarrow> vec \<Rightarrow> real" where
  "ls_residual beta H y = norm2 (vsub (smul beta (unit_vec (nrows H) 0)) (matvec H y))"

section \<open>Poisson matrix generator\<close>

text \<open>
  \<open>np.empty\<close> allocates an array without initializing it: an entry is \<open>None\<close> until the
  code has written it.  \<open>xs[i] = v\<close> raises \<open>IndexError\<close> past the end of the array;
  the slice assignment \<open>xs[a:b] = v\<close> writes the positions of the slice that exist.
\<close>

definition then_do :: "error + 'a \<Rightarrow> ('a \<Rightarrow> error + 'b) \<Rightarrow> error + 'b" where
  "then_do r f = (case r of Inl e \<Rightarrow> Inl e | Inr x \<Rightarrow> f x)"

definition write_at :: "'a option list \<Rightarrow> nat \<Rightarrow> 'a \<Rightarrow> error + 'a option list" where
  "write_at xs i v = (if i < length xs then Inr (xs[i := Some v]) else Inl IndexError)"

definition write_slice :: "'a option list \<Rightarrow> nat \<Rightarrow> nat \<Rightarrow> 'a \<Rightarrow> 'a option list" where
  "write_slice xs a b v = fold (\<lambda>t ys. ys[t := Some v]) [a..<b] xs"

fun fold_err :: "('s \<Rightarrow> 'a \<Rightarrow> error + 's) \<Rightarrow> 'a list \<Rightarrow> 's \<Rightarrow> error + 's" where
  "fold_err f [] s = Inr s"
| "fold_err f (x # xs) s = (case f s x of Inl e \<Rightarrow> Inl e | Inr s' \<Rightarrow> fold_err f xs s')"

text \<open>
  The arrays and the counter of \<open>discretise_poisson\<close>.  The index arrays are allocated
  with \<open>dtype=np.float64\<close>; they only ever hold grid indices, which are naturals here.
\<close>

record poisson_state =
  ps_row_ind :: "nat option list"
  ps_col_ind :: "nat option list"
  ps_data :: "real option list"
  ps_f :: "real option list"
  ps_count :: nat

text \<open>
  The body of the inner loop, for the grid point in row \<open>j\<close> and column \<open>i\<close>:
  \<^verbatim>\<open>
            if i == 0 or i == N - 1 or j == 0 or j == N - 1:
                row_ind[count] = col_ind[count] = j * N + i
                data[count] =  1
                f[j * N + i] = 0
                count += 1
            else:
                row_ind[count : count + 5] = j * N + i
                col_ind[count] = j * N + i
                col_ind[count + 1] = j * N + i + 1
                col_ind[count + 2] = j * N + i - 1
                col_ind[count + 3] = (j + 1) * N + i
                col_ind[count + 4] = (j - 1) * N + i
                data[count] = 4 * (N - 1)**2
                data[count + 1 : count + 5] = - (N - 1)**2
                f[j * N + i] = 1
                count += 5
  \<close>
\<close>

definition poisson_node :: "nat \<Rightarrow> poisson_state \<Rightarrow> nat \<times> nat \<Rightarrow> error + poisson_state" where
  "poisson_node N s ji =
     (let (j, i) = ji; count = ps_count s in
      if i = 0 \<or> i = N - 1 \<or> j = 0 \<or> j = N - 1 then
        then_do (write_at (ps_row_ind s) count (j * N + i)) (\<lambda>row_ind.
        then_do (write_at (ps_col_ind s) count (j * N + i)) (\<lambda>col_ind.
        then_do (write_at (ps_data s) count 1) (\<lambda>data.
        then_do (write_at (ps_f s) (j * N + i) 0) (\<lambda>f.
        Inr \<lparr>ps_row_ind = row_ind, ps_col_ind = col_ind, ps_data = data, ps_f = f,
             ps_count = count + 1\<rparr>))))
      else
        (let row_ind = write_slice (ps_row_ind s) count (count + 5) (j * N + i) in
        then_do (write_at (ps_col_ind s) count (j * N + i)) (\<lambda>col_ind.
        then_do (write_at col_ind (count + 1) (j * N + i + 1)) (\<lambda>col_ind.
        then_do (write_at col_ind (count + 2) (j * N + i - 1)) (\<lambda>col_ind.
        then_do (write_at col_ind (count + 3) ((j + 1) * N + i)) (\<lambda>col_ind.
        then_do (write_at col_ind (count + 4) ((j - 1) * N + i)) (\<lambda>col_ind.
        then_do (write_at (ps_data s) count (4 * (real N - 1)\<^sup>2)) (\<lambda>data.
        (let data = write_slice data (count + 1) (count + 5) (- (real N - 1)\<^sup>2) in
        then_do (write_at (ps_f s) (j * N + i) 1) (\<lambda>f.
        Inr \<lparr>ps_row_ind = row_ind, ps_col_ind = col_ind, ps_data = data, ps_f = f,
             ps_count = count + 5\<rparr>))))))))))"

text \<open>
  What \<open>coo_matrix((data, (row_ind, col_ind)), shape=(N**2, N**2))\<close> is built from.  The
  constructor belongs to scipy; its checks of the index arrays are not modelled.
\<close>

record coo_matrix =
  coo_data :: "real option list"
  coo_row :: "nat option list"
  coo_col :: "nat option list"
  coo_shape :: "nat \<times> nat"

text \<open>
  \<^verbatim>\<open>
  def discretise_poisson(N):
      nelements = 5 * N**2 - 16 * N + 16
      row_ind = np.empty(nelements, dtype=np.float64)
      col_ind = np.empty(nelements, dtype=np.float64)
      data = np.empty(nelements, dtype=np.float64)
      f = np.empty(N * N, dtype=np.float64)
      count = 0
      for j in range(N):
          for i in range(N):
              ...
      return coo_matrix((data, (row_ind, col_ind)), shape=(N**2, N**2)), f
  \<close>
\<close>

definition nelements :: "nat \<Rightarrow> nat" where
  "nelements N = nat (5 * (int N)\<^sup>2 - 16 * int N + 16)"

definition discretise_poisson :: "nat \<Rightarrow> error + coo_matrix \<times> real option list" where
  "discretise_poisson N =
     (let row_ind = replicate (nelements N) None;
          col_ind = replicate (nelements N) None;
          data = replicate (nelements N) None;
          f = replicate (N * N) None;
          s = \<lparr>ps_row_ind = row_ind, ps_col_ind = col_ind, ps_data = data, ps_f = f,
               ps_count = 0\<rparr>
      in case fold_err (\<lambda>s j. fold_err (\<lambda>s i. poisson_node N s (j, i)) [0..<N] s) [0..<N] s of
           Inl e \<Rightarrow> Inl e
         | Inr s \<Rightarrow>
             Inr (\<lparr>coo_data = ps_data s, coo_row = ps_row_ind s, coo_col = ps_col_ind s,
                   coo_shape = (N\<^sup>2, N\<^sup>2)\<rparr>, ps_f s))"

text \<open>
  The matrix a \<open>coo_matrix\<close> stands for: the entry at \<open>(r, c)\<close> is the sum of the data
  values stored with that row and column index (scipy sums duplicates on conversion).
  The matrix is determined only when every array entry has been written.
\<close>

definition coo_initialized :: "coo_matrix \<Rightarrow> bool" where
  "coo_initialized M \<longleftrightarrow>
     length (coo_row M) = length (coo_data M) \<and> length (coo_col M) = length (coo_data M) \<and>
     None \<notin> set (coo_data M) \<and> None \<notin> set (coo_row M) \<and> None \<notin> set (coo_col M)"

definition coo_entry :: "coo_matrix \<Rightarrow> nat \<Rightarrow> nat \<Rightarrow> real" where
  "coo_entry M r c =
     sum_list (map (\<lambda>t. if coo_row M ! t = Some r \<and> coo_col M ! t = Some c
                         then (case coo_data M ! t of Some d \<Rightarrow> d | None \<Rightarrow> 0) else 0)
                   [0..<length (coo_data M)])"

text \<open>
  Notions for the proof.  \<open>filled xs n\<close> is an array of \<open>n\<close> entries of which the leading
  ones have been written with \<open>xs\<close>.  \<open>node_entries\<close> and \<open>node_f\<close> are what the loop
  body stores for one grid point, \<open>grid N\<close> lists the grid points in the order the two
  loops visit them, and \<open>hit r c e\<close> is what a stored triple contributes to the matrix
  entry at \<open>(r, c)\<close>.
\<close>

definition filled :: "'a list \<Rightarrow> nat \<Rightarrow> 'a option list" where
  "filled xs n = map Some xs @ replicate (n - length xs) None"

definition node_entries :: "nat \<Rightarrow> nat \<times> nat \<Rightarrow> (nat \<times> nat \<times> real) list" where
  "node_entries N ji =
     (let (j, i) = ji; p = j * N + i in
      if i = 0 \<or> i = N - 1 \<or> j = 0 \<or> j = N - 1 then [(p, p, 1)]
      else [(p, p, 4 * (real N - 1)\<^sup>2), (p, j * N + i + 1, - (real N - 1)\<^sup>2),
            (p, j * N + i - 1, - (real N - 1)\<^sup>2), (p, (j + 1) * N + i, - (real N - 1)\<^sup>2),
            (p, (j - 1) * N + i, - (real N - 1)\<^sup>2)])"

definition node_f :: "nat \<Rightarrow> nat \<times> nat \<Rightarrow> real" where
  "node_f N ji = (let (j, i) = ji in if i = 0 \<or> i = N - 1 \<or> j = 0 \<or> j = N - 1 then 0 else 1)"

definition node_index :: "nat \<Rightarrow> nat \<times> nat \<Rightarrow> nat" where
  "node_index N ji = fst ji * N + snd ji"

definition grid :: "nat \<Rightarrow> (nat \<times> nat) list" where
  "grid N = concat (map (\<lambda>j. map (Pair j) [0..<N]) [0..<N])"

definition holds :: "nat \<Rightarrow> (nat \<times> nat \<times> real) list \<Rightarrow> real option list \<Rightarrow> poisson_state \<Rightarrow> bool" where
  "holds n es f s \<longleftrightarrow>
     ps_row_ind s = filled (map fst es) n \<and>
     ps_col_ind s = filled (map (fst \<circ> snd) es) n \<and>
     ps_data s = filled (map (snd \<circ> snd) es) n \<and>
     ps_f s = f \<and> ps_count s = length es"

definition f_after :: "nat \<Rightarrow> real option list \<Rightarrow> (nat \<times> nat) list \<Rightarrow> real option list" where
  "f_after N f qs = foldl (\<lambda>f q. f[node_index N q := Some (node_f N q)]) f qs"

definition hit :: "nat \<Rightarrow> nat \<Rightarrow> nat \<times> nat \<times> real \<Rightarrow> real" where
  "hit r c e = (if fst e = r \<and> fst (snd e) = c then snd (snd e) else 0)"

section \<open>Evaluation\<close>

text \<open>
  The defining equations needed to run the solver on a concrete input with the simplifier.
\<close>

lemma mat_of_rows_sel [simp]:
  "nrows (mat_of_rows rs) = length rs"
  "ncols (mat_of_rows rs) = (if rs = [] then 0 else length (hd rs))"
  "entry (mat_of_rows rs) i j = rs ! i ! j"
  by (simp_all add: mat_of_rows_def)

lemma zeros_mat_sel [simp]:
  "nrows (zeros_mat r c) = r" "ncols (zeros_mat r c) = c" "entry (zeros_mat r c) i j = 0"
  by (simp_all add: zeros_mat_def)

lemma identity_mat_sel [simp]:
  "nrows (identity_mat n) = n" "ncols (identity_mat n) = n"
  "entry (identity_mat n) i j = (if i = j then 1 else 0)"
  by (simp_all add: identity_mat_def)

lemma cat_cols_sel [simp]:
  "nrows (cat_cols V W) = nrows V" "ncols (cat_cols V W) = ncols V + ncols W"
  "entry (cat_cols V W) i j = (if j < ncols V then entry V i j else entry W i (j - ncols V))"
  by (simp_all add: cat_cols_def)

lemma set_col_prefix_sel [simp]:
  "nrows (set_col_prefix H m j v) = nrows H" "ncols (set_col_prefix H m j v) = ncols H"
  "entry (set_col_prefix H m j v) i c
     = (if c = j \<and> i < m \<and> i < length v then v ! i else entry H i c)"
  by (simp_all add: set_col_prefix_def)

lemma set_col_sel [simp]:
  "nrows (set_col V j v) = nrows V" "ncols (set_col V j v) = ncols V"
  "entry (set_col V j v) i c
     = (if c = j \<and> i < nrows V \<and> i < length v then v ! i else entry V i c)"
  by (simp_all add: set_col_def)

lemma block_sel [simp]:
  "nrows (block H m c) = min m (nrows H)" "ncols (block H m c) = min c (ncols H)"
  "entry (block H m c) i j = entry H i j"
  by (simp_all add: block_def)

lemma block_cols_sel [simp]:
  "nrows (block_cols V c) = nrows V" "ncols (block_cols V c) = min c (ncols V)"
  "entry (block_cols V c) i j = entry V i j"
  by (simp_all add: block_cols_def)

lemma drop_last_row_sel [simp]:
  "nrows (drop_last_row R) = nrows R - 1" "ncols (drop_last_row R) = ncols R"
  "entry (drop_last_row R) i j = entry R i j"
  by (simp_all add: drop_last_row_def)

lemmas tensor_defs =
  zeros_def zeros_like_def row_from_def row_def col_def
  vmul_def vsum_def dot_def norm2_def matvec_def vadd_def vsub_def smul_def sdiv_def
  unit_vec_def

lemmas solver_defs =
  precon_GMRES_restarted_def gmres_loop.simps gmres_init_def gmres_iteration_def
  gmres_restart_def arnoldi_one_iter_def gs_step_def back_substitution_def bs_step_def
  default_tol_def default_epsilon_def Let_def

section \<open>Back substitution solves the triangular system\<close>

lemma vsum_vmul_row_from:
  assumes "length x = ncols A"
  shows "vsum (vmul (row_from A i s) (drop s x)) = (\<Sum>j = s..<ncols A. entry A i j * x ! j)"
proof -
  have "map2 (*) (map (entry A i) [s..<ncols A]) (drop s x)
        = map (\<lambda>j. entry A i j * x ! j) [s..<ncols A]"
    using assms by (intro nth_equalityI) auto
  then show ?thesis
    by (simp add: vsum_def vmul_def row_from_def interv_sum_list_conv_sum_set_nat)
qed

lemma dot_row:
  assumes "length x = ncols A"
  shows "dot (row A i) x = (\<Sum>j = 0..<ncols A. entry A i j * x ! j)"
  using vsum_vmul_row_from[OF assms, of i 0] by (simp add: dot_def row_def)

lemma length_bs_step [simp]: "length (bs_step A b x i) = length x"
  by (simp add: bs_step_def)

lemma length_bs_loop [simp]: "length (foldl (bs_step A b) x js) = length x"
  by (induction js arbitrary: x) auto

lemma foldl_rev_upt:
  "i < n \<Longrightarrow> foldl f x (rev [i..<n]) = f (foldl f x (rev [Suc i..<n])) i"
  by (simp add: upt_conv_Cons)

text \<open>
  The loop runs over the rows from the last to the first.  Once the rows \<open>i, \<dots>, n - 1\<close>
  are done, each of them satisfies its equation restricted to the columns from the
  diagonal on; the rows still to come only write entries to the left of those columns.
\<close>

lemma bs_loop_rows:
  fixes A :: mat
  assumes n: "length b = n" "ncols A = n" and d: "\<forall>i<n. entry A i i \<noteq> 0"
  shows "i \<le> n \<Longrightarrow> i \<le> r \<Longrightarrow> r < n \<Longrightarrow>
         (\<Sum>j = r..<n. entry A r j * foldl (bs_step A b) (zeros n) (rev [i..<n]) ! j) = b ! r"
proof (induction "n - i" arbitrary: i r)
  case 0
  then show ?case by simp
next
  case (Suc m)
  then have i: "i < n" by simp
  define X where "X = foldl (bs_step A b) (zeros n) (rev [Suc i..<n])"
  have lenX: "length X = n" by (simp add: X_def zeros_def)
  define v where "v = (b ! i - (\<Sum>j = Suc i..<n. entry A i j * X ! j)) / entry A i i"
  have step: "foldl (bs_step A b) (zeros n) (rev [i..<n]) = X[i := v]"
    using i lenX n vsum_vmul_row_from[of X A i "Suc i"]
    by (simp add: foldl_rev_upt X_def[symmetric] bs_step_def v_def)
  show ?case
  proof (cases "r = i")
    case True
    have "(\<Sum>j = i..<n. entry A i j * X[i := v] ! j)
          = entry A i i * v + (\<Sum>j = Suc i..<n. entry A i j * X[i := v] ! j)"
      using i lenX by (simp add: sum.atLeast_Suc_lessThan)
    also have "(\<Sum>j = Suc i..<n. entry A i j * X[i := v] ! j)
               = (\<Sum>j = Suc i..<n. entry A i j * X ! j)"
      by (rule sum.cong) auto
    also have "entry A i i * v = b ! i - (\<Sum>j = Suc i..<n. entry A i j * X ! j)"
      using d i by (simp add: v_def)
    finally show ?thesis using True step by simp
  next
    case False
    with Suc.prems have r: "Suc i \<le> r" by simp
    have "(\<Sum>j = r..<n. entry A r j * X[i := v] ! j) = (\<Sum>j = r..<n. entry A r j * X ! j)"
      using r by (intro sum.cong) auto
    also have "\<dots> = b ! r"
      unfolding X_def using Suc.hyps(1)[of "Suc i" r] Suc.hyps(2) r Suc.prems i by simp
    finally show ?thesis using step by simp
  qed
qed

lemma bs_loop_stable:
  "i' \<le> i \<Longrightarrow> i \<le> n \<Longrightarrow> i \<le> j \<Longrightarrow>
   foldl (bs_step A b) x (rev [i'..<n]) ! j = foldl (bs_step A b) x (rev [i..<n]) ! j"
proof (induction "i - i'" arbitrary: i')
  case 0
  then show ?case by simp
next
  case (Suc m)
  then have lt: "i' < n" "i' < i" by simp_all
  have "foldl (bs_step A b) x (rev [i'..<n]) ! j
        = foldl (bs_step A b) x (rev [Suc i'..<n]) ! j"
    using lt Suc.prems by (simp add: foldl_rev_upt bs_step_def)
  also have "\<dots> = foldl (bs_step A b) x (rev [i..<n]) ! j"
    using Suc.hyps(1)[of "Suc i'"] Suc.hyps(2) Suc.prems lt by simp
  finally show ?case .
qed

text \<open>Every entry of the result is the quotient the loop body assigns to it.\<close>

lemma bs_loop_entry:
  assumes n: "length b = n" "ncols A = n" and i: "i < n"
  defines "z \<equiv> foldl (bs_step A b) (zeros n) (rev [0..<n])"
  shows "z ! i = (b ! i - (\<Sum>j = Suc i..<n. entry A i j * z ! j)) / entry A i i"
proof -
  define X where "X = foldl (bs_step A b) (zeros n) (rev [Suc i..<n])"
  have lenX: "length X = n" by (simp add: X_def zeros_def)
  have "z ! i = foldl (bs_step A b) (zeros n) (rev [i..<n]) ! i"
    unfolding z_def using i by (intro bs_loop_stable) auto
  also have "\<dots> = (b ! i - (\<Sum>j = Suc i..<n. entry A i j * X ! j)) / entry A i i"
    using i lenX n vsum_vmul_row_from[of X A i "Suc i"]
    by (simp add: foldl_rev_upt X_def[symmetric] bs_step_def)
  also have "(\<Sum>j = Suc i..<n. entry A i j * X ! j) = (\<Sum>j = Suc i..<n. entry A i j * z ! j)"
  proof (rule sum.cong)
    fix j assume "j \<in> {Suc i..<n}"
    then have "z ! j = X ! j"
      unfolding z_def X_def using i by (intro bs_loop_stable) auto
    then show "entry A i j * X ! j = entry A i j * z ! j" by simp
  qed simp
  finally show ?thesis .
qed

text \<open>
  Claim C4.  For a square upper-triangular matrix \<open>R\<close> of size \<open>m \<times> m\<close> with nonzero
  diagonal entries and a vector \<open>y\<close> of length \<open>m\<close>, the triangular solver returns a
  vector \<open>z\<close> of length \<open>m\<close> with \<open>R z = y\<close>, and \<open>z\<close> is the result of back substitution:
  \<open>z[i] = (y[i] - \<Sum>\<^bsub>j>i\<^esub> R[i,j] z[j]) / R[i,i]\<close> for every row \<open>i\<close>.  (Exact arithmetic;
  the notebooks compute in floating point, where the equation holds up to rounding.)
\<close>

theorem back_substitution_solves:
  assumes sq: "nrows R = length y" "ncols R = length y"
    and ut: "upper_triangular R" and nz: "nonzero_diagonal R"
  shows "\<exists>z. back_substitution R y = Inr z \<and> length z = length y \<and> matvec R z = y \<and>
             (\<forall>i<length y. z ! i
                = (y ! i - (\<Sum>j = Suc i..<length y. entry R i j * z ! j)) / entry R i i)"
proof -
  define n where "n = length y"
  define z where "z = foldl (bs_step R y) (zeros n) (rev [0..<n])"
  have bs: "back_substitution R y = Inr z"
    using sq by (simp add: back_substitution_def z_def n_def Let_def)
  have lenz: "length z = n" by (simp add: z_def zeros_def)
  have d: "\<forall>i<n. entry R i i \<noteq> 0" using nz sq by (simp add: nonzero_diagonal_def n_def)
  have "matvec R z = y"
  proof (rule nth_equalityI)
    show "length (matvec R z) = length y" using sq by (simp add: matvec_def)
  next
    fix r assume "r < length (matvec R z)"
    then have r: "r < n" using sq by (simp add: matvec_def n_def)
    have "dot (row R r) z = (\<Sum>j = 0..<n. entry R r j * z ! j)"
      using dot_row[of z R r] lenz sq by (simp add: n_def)
    also have "{0..<n} = {0..<r} \<union> {r..<n}" using r by auto
    also have "(\<Sum>j \<in> {0..<r} \<union> {r..<n}. entry R r j * z ! j)
               = (\<Sum>j = 0..<r. entry R r j * z ! j) + (\<Sum>j = r..<n. entry R r j * z ! j)"
      by (rule sum.union_disjoint) auto
    also have "(\<Sum>j = 0..<r. entry R r j * z ! j) = 0"
      using ut r sq by (intro sum.neutral) (auto simp: upper_triangular_def n_def)
    also have "(\<Sum>j = r..<n. entry R r j * z ! j) = y ! r"
      unfolding z_def using bs_loop_rows[of y n R 0 r] d sq r by (simp add: n_def)
    finally show "matvec R z ! r = y ! r" using r sq by (simp add: matvec_def n_def)
  qed
  moreover have "\<forall>i<length y. z ! i
      = (y ! i - (\<Sum>j = Suc i..<length y. entry R i j * z ! j)) / entry R i i"
    unfolding z_def n_def using bs_loop_entry[of y "length y" R] sq by simp
  ultimately show ?thesis using bs lenz by (auto simp: n_def)
qed

theorem back_substitution_solves_witness:
  "back_substitution (mat_of_rows [[2, 1], [0, 4 :: real]]) [4, 8] = Inr [1, 2] \<and>
   matvec (mat_of_rows [[2, 1], [0, 4]]) [1, 2] = [4, 8]"
proof -
  let ?R = "mat_of_rows [[2, 1], [0, 4]] :: mat"
  have sq: "nrows ?R = length [4, 8 :: real]" "ncols ?R = length [4, 8 :: real]"
    by simp_all
  have ut: "upper_triangular ?R"
    by (auto simp: upper_triangular_def less_Suc_eq)
  have nz: "nonzero_diagonal ?R"
    by (auto simp: nonzero_diagonal_def less_Suc_eq)
  obtain z where z: "back_substitution ?R [4, 8] = Inr z" "matvec ?R z = [4, 8]"
    using back_substitution_solves[OF sq ut nz] by blast
  have "back_substitution ?R [4, 8] = Inr [1, 2]"
    by (simp add: back_substitution_def bs_step_def tensor_defs Let_def upt_rec)
  with z show ?thesis by simp
qed


section \<open>Errors of the triangular solver\<close>

lemma back_substitution_shape:
  "back_substitution A y =
     (if nrows A = length y \<and> ncols A = length y
      then Inr (foldl (bs_step A y) (zeros (length y)) (rev [0..<length y]))
      else Inl (ValueError ''Matrix A must be square.''))"
  by (simp add: back_substitution_def Let_def)

text \<open>
  Every entry of the result is a quotient by the diagonal entry of its row, whatever the
  scalars are.
\<close>

lemma bs_loop_pivot:
  assumes i: "i < n"
  shows "\<exists>num. foldl (bs_step A b) (zeros n) (rev [0..<n]) ! i = num / entry A i i"
proof -
  define X where "X = foldl (bs_step A b) (zeros n) (rev [Suc i..<n])"
  have lenX: "length X = n" by (simp add: X_def zeros_def)
  have "foldl (bs_step A b) (zeros n) (rev [0..<n]) ! i
        = foldl (bs_step A b) (zeros n) (rev [i..<n]) ! i"
    using i by (intro bs_loop_stable) auto
  also have "\<dots> = (b ! i - vsum (vmul (row_from A i (i + 1)) (drop (i + 1) X))) / entry A i i"
    using i lenX by (simp add: foldl_rev_upt X_def[symmetric] bs_step_def)
  finally show ?thesis by blast
qed

text \<open>A quotient by zero is never finite: it is an infinity or NaN.\<close>

lemma divide_zero_not_finite: "\<not> is_finite (x / (0 :: xreal))"
  by (cases x) (simp_all add: is_finite_def zero_xreal_def)

text \<open>
  Claim C5.  The triangular solver raises an error exactly when the matrix is not square
  of the size of the right-hand side, and that error is the \<open>ValueError\<close> of the first
  check.  With compatible dimensions it returns a vector of the length of the right-hand
  side whatever the diagonal entries are, since no entry of \<open>A\<close> is tested; and over the
  scalars with infinities and NaN, the result is not finite at every row whose diagonal
  entry is zero.
\<close>

theorem back_substitution_raises_iff:
  fixes A :: "xreal matrix" and y :: "xreal list"
  shows "(isl (back_substitution A y) \<longleftrightarrow> \<not> (nrows A = length y \<and> ncols A = length y)) \<and>
   (\<forall>e. back_substitution A y = Inl e \<longrightarrow> e = ValueError ''Matrix A must be square.'') \<and>
   (\<forall>z. back_substitution A y = Inr z \<longrightarrow>
        length z = length y \<and> (\<forall>i<length y. entry A i i = 0 \<longrightarrow> \<not> is_finite (z ! i)))"
proof -
  have "\<not> is_finite (foldl (bs_step A y) (zeros (length y)) (rev [0..<length y]) ! i)"
    if "i < length y" "entry A i i = 0" for i
    using bs_loop_pivot[OF that(1), of A y] that(2) by (auto simp: divide_zero_not_finite)
  then show ?thesis
    by (auto simp: back_substitution_shape zeros_def)
qed

text \<open>
  On a matrix of reals with nonzero diagonal the run over the extended scalars is the run
  over the reals: every value stays finite, and the result is the one computed over the reals.
\<close>

lemma fin_matrix_sel [simp]:
  "nrows (fin_matrix A) = nrows A" "ncols (fin_matrix A) = ncols A"
  "entry (fin_matrix A) i j = Fin (entry A i j)"
  by (simp_all add: fin_matrix_def)

lemma vsum_vmul_Fin:
  "vsum (vmul (map Fin u) (map Fin v)) = Fin (vsum (vmul u v))"
proof (induction u arbitrary: v)
  case Nil
  then show ?case by (simp add: vsum_def vmul_def zero_xreal_def)
next
  case (Cons a u)
  then show ?case by (cases v) (simp_all add: vsum_def vmul_def zero_xreal_def)
qed

lemma bs_step_Fin:
  assumes "i < length b" "entry A i i \<noteq> 0"
  shows "bs_step (fin_matrix A) (map Fin b) (map Fin x) i = map Fin (bs_step A b x i)"
proof -
  have r: "row_from (fin_matrix A) i s = map Fin (row_from A i s)" for s
    by (simp add: row_from_def)
  show ?thesis
    using assms
    by (simp add: bs_step_def r drop_map vsum_vmul_Fin map_update minus_xreal_def)
qed

lemma bs_loop_Fin:
  assumes "\<forall>i\<in>set js. i < length b \<and> entry A i i \<noteq> 0"
  shows "foldl (bs_step (fin_matrix A) (map Fin b)) (map Fin x) js
         = map Fin (foldl (bs_step A b) x js)"
  using assms by (induction js arbitrary: x) (simp_all add: bs_step_Fin)

lemma back_substitution_Fin:
  assumes "nonzero_diagonal A"
  shows "back_substitution (fin_matrix A) (map Fin y)
         = map_sum id (map Fin) (back_substitution A y)"
proof (cases "nrows A = length y \<and> ncols A = length y")
  case True
  have z: "zeros n = map Fin (zeros n)" for n
    by (simp add: zeros_def zero_xreal_def)
  from True assms have "\<forall>i\<in>set (rev [0..<length y]). i < length y \<and> entry A i i \<noteq> 0"
    by (simp add: nonzero_diagonal_def)
  from bs_loop_Fin[OF this, of "zeros (length y)"] True show ?thesis
    by (simp add: back_substitution_shape z[symmetric])
next
  case False
  then show ?thesis
    by (auto simp: back_substitution_shape)
qed

text \<open>
  The solve of \<open>[[0, 1], [0, 0]] z = [1, 1]\<close> completes with \<open>z = [-\<infinity>, +\<infinity>]\<close>; a matrix
  that is not square, or not of the size of the right-hand side, raises.
\<close>

theorem back_substitution_raises_iff_witness:
  "back_substitution (mat_of_rows [[Fin 0, Fin 1], [Fin 0, Fin 0]]) [Fin 1, Fin 1]
     = Inr [MInf, PInf] \<and>
   \<not> is_finite ([MInf, PInf] ! 0) \<and> \<not> is_finite ([MInf, PInf] ! 1) \<and>
   isl (back_substitution (mat_of_rows [[Fin 1, Fin 2]]) [Fin 1]) \<and>
   isl (back_substitution (mat_of_rows [[Fin 1], [Fin 2]]) [Fin 1]) \<and>
   isl (back_substitution (mat_of_rows [[Fin 1, Fin 0], [Fin 0, Fin 1]]) [Fin 1])"
proof -
  let ?A = "mat_of_rows [[Fin 0, Fin 1], [Fin 0, Fin 0]]"
  have run: "back_substitution ?A [Fin 1, Fin 1] = Inr [MInf, PInf]"
    by (simp add: back_substitution_def bs_step_def tensor_defs Let_def upt_rec
        zero_xreal_def minus_xreal_def)
  from back_substitution_raises_iff[of ?A "[Fin 1, Fin 1]"] run
  have "\<forall>i<length [Fin 1, Fin 1]. entry ?A i i = 0 \<longrightarrow> \<not> is_finite ([MInf, PInf] ! i)"
    by simp
  then have "\<not> is_finite ([MInf, PInf] ! 0)" "\<not> is_finite ([MInf, PInf] ! 1)"
    by (simp_all add: zero_xreal_def All_less_Suc)
  with run
    back_substitution_raises_iff[of "mat_of_rows [[Fin 1, Fin 2]]" "[Fin 1]"]
    back_substitution_raises_iff[of "mat_of_rows [[Fin 1], [Fin 2]]" "[Fin 1]"]
    back_substitution_raises_iff[of "mat_of_rows [[Fin 1, Fin 0], [Fin 0, Fin 1]]" "[Fin 1]"]
  show ?thesis by simp
qed

section \<open>The driver's arguments and its return\<close>

text \<open>
  Claim C10.  Calling the driver without an initial guess gives the same result as
  calling it with the zero vector of the length of \<open>b\<close>.
\<close>

theorem gmres_x0_default:
  "precon_GMRES_restarted qr prec A b None k_max restart epsilon
   = precon_GMRES_restarted qr prec A b (Some (zeros (length b))) k_max restart epsilon"
  by (simp add: precon_GMRES_restarted_def zeros_like_def)

text \<open>
  Claim C3.  When the preconditioned initial residual has norm zero, the loop condition
  \<open>pk > epsilon * p0\<close> is \<open>0 > 0\<close>, so the body never runs and \<open>xk\<close> is never
  assigned: the \<open>return\<close> statement raises \<open>UnboundLocalError\<close> instead of returning the
  initial guess.
\<close>

theorem gmres_zero_residual_unbound:
  assumes "norm2 (prec (vsub b (matvec A x0))) = 0"
  shows "precon_GMRES_restarted qr prec A b (Some x0) k_max restart epsilon
         = Inl (UnboundLocalError ''xk'')"
  using assms
  by (simp add: precon_GMRES_restarted_def gmres_init_def gmres_loop.simps Let_def)

theorem gmres_zero_residual_unbound_witness:
  "norm2 (id (vsub [0] (matvec (mat_of_rows [[1]]) [0]))) = 0 \<and>
   precon_GMRES_restarted (\<lambda>H. (H, H)) id (mat_of_rows [[1]]) [0] (Some [0]) None None
     default_epsilon = Inl (UnboundLocalError ''xk'')"
proof -
  have h: "norm2 (id (vsub [0] (matvec (mat_of_rows [[1]]) [0]))) = 0"
    by (simp add: tensor_defs)
  from gmres_zero_residual_unbound[where prec = id and b = "[0]" and A = "mat_of_rows [[1]]"
      and ?x0.0 = "[0]", OF h] h
  show ?thesis by simp
qed


section \<open>Running the loop\<close>

lemma gmres_loop_stop:
  "\<not> (st_pk s > epsilon * st_p0 s \<and> int (st_total_k s) < k_max) \<Longrightarrow>
   gmres_loop qr prec A b n k_max restart epsilon s = Inr s"
  by (subst gmres_loop.simps) auto

lemma gmres_loop_step:
  "st_pk s > epsilon * st_p0 s \<Longrightarrow> int (st_total_k s) < k_max \<Longrightarrow>
   gmres_loop qr prec A b n k_max restart epsilon s =
     (case gmres_iteration qr prec A b n restart s of
        Inl e \<Rightarrow> Inl e
      | Inr s' \<Rightarrow> gmres_loop qr prec A b n k_max restart epsilon s')"
  by (subst gmres_loop.simps) simp

lemma gmres_result_returned:
  "precon_GMRES_restarted qr prec A b x0 k_max restart epsilon =
     (let x0 = (case x0 of Some x \<Rightarrow> x | None \<Rightarrow> zeros_like b);
          n = nrows A;
          k_max = (case k_max of None \<Rightarrow> int n | Some m \<Rightarrow> if m > int n then int n else m)
      in case map_sum id returned
                (gmres_loop qr prec A b n k_max restart epsilon (gmres_init prec A b n x0)) of
           Inl e \<Rightarrow> Inl e
         | Inr (xk, error_list, total_k) \<Rightarrow>
             (case xk of
                None \<Rightarrow> Inl (UnboundLocalError ''xk'')
              | Some xk \<Rightarrow> Inr (xk, error_list, total_k)))"
  by (simp add: precon_GMRES_restarted_def Let_def returned_def split: sum.splits)

lemma gmres_run:
  assumes "nrows A = n"
    and "(case k_max of None \<Rightarrow> int n | Some m \<Rightarrow> if m > int n then int n else m) = k_max'"
    and "gmres_loop qr prec A b n k_max' restart epsilon (gmres_init prec A b n x0) = Inr s"
    and "returned s = (Some x, tr, t)"
  shows "precon_GMRES_restarted qr prec A b (Some x0) k_max restart epsilon = Inr (x, tr, t)"
  using assms by (simp add: gmres_result_returned)

lemma gmres_iteration_restart:
  "gmres_iteration qr prec A b n (Some r) s =
     (case gmres_iteration qr prec A b n None s of
        Inl e \<Rightarrow> Inl e
      | Inr s1 \<Rightarrow>
          if int (st_k s1) = r then Inr (gmres_restart prec A b n (the (st_xk s1)) s1)
          else Inr s1)"
  by (auto simp: gmres_iteration_def Let_def case_prod_beta split: sum.split)

lemma gmres_iteration_counters:
  "gmres_iteration qr prec A b n None s = Inr s1 \<Longrightarrow>
   st_k s1 = Suc (st_k s) \<and> st_total_k s1 = Suc (st_total_k s)"
  by (auto simp: gmres_iteration_def Let_def case_prod_beta split: sum.splits)

lemma returned_gmres_restart [simp]: "returned (gmres_restart prec A b n x s) = returned s"
  by (simp add: returned_def gmres_restart_def Let_def)

section \<open>A restart period that is never reached before the iteration bound\<close>

text \<open>
  Until the first restart the cycle counter \<open>k\<close> equals \<open>total_k\<close>.  A restart period
  \<open>r\<close> not below the iteration bound can therefore only be reached by the iteration after
  which \<open>total_k < k_max\<close> fails, and the restart block changes none of the variables the
  \<open>return\<close> statement reads.
\<close>

lemma gmres_loop_late_restart:
  assumes "st_k s = st_total_k s" "k_max \<le> r"
  shows "map_sum id returned (gmres_loop qr prec A b n k_max (Some r) epsilon s)
         = map_sum id returned (gmres_loop qr prec A b n k_max None epsilon s)"
  using assms(1)
proof (induction "nat (k_max - int (st_total_k s))" arbitrary: s rule: less_induct)
  case less
  show ?case
  proof (cases "st_pk s > epsilon * st_p0 s \<and> int (st_total_k s) < k_max")
    case False
    then show ?thesis by (simp add: gmres_loop_stop)
  next
    case True
    then have go: "st_pk s > epsilon * st_p0 s" "int (st_total_k s) < k_max" by simp_all
    show ?thesis
    proof (cases "gmres_iteration qr prec A b n None s")
      case (Inl e)
      then show ?thesis
        by (simp add: gmres_loop_step[OF go] gmres_iteration_restart)
    next
      case (Inr s1)
      from gmres_iteration_counters[OF Inr] less.prems
      have c: "st_k s1 = Suc (st_k s)" "st_total_k s1 = Suc (st_total_k s)"
        "st_k s1 = st_total_k s1" by simp_all
      show ?thesis
      proof (cases "int (st_k s1) = r")
        case False
        have "nat (k_max - int (st_total_k s1)) < nat (k_max - int (st_total_k s))"
          using True c by simp
        from less.hyps[OF this c(3)] Inr False show ?thesis
          by (simp add: gmres_loop_step[OF go] gmres_iteration_restart)
      next
        case eq: True
        let ?s2 = "gmres_restart prec A b n (the (st_xk s1)) s1"
        have t: "st_total_k ?s2 = st_total_k s1"
          by (simp add: gmres_restart_def Let_def)
        have stop1: "\<not> int (st_total_k s1) < k_max" using eq c assms(2) by simp
        have "gmres_loop qr prec A b n k_max (Some r) epsilon ?s2 = Inr ?s2"
          using stop1 t by (simp add: gmres_loop_stop)
        moreover have "gmres_loop qr prec A b n k_max None epsilon s1 = Inr s1"
          using stop1 by (simp add: gmres_loop_stop)
        ultimately show ?thesis using Inr eq
          by (simp add: gmres_loop_step[OF go] gmres_iteration_restart)
      qed
    qed
  qed
qed

text \<open>
  Claim C7.  Running the driver with \<open>restart = k_max\<close> returns what running it with
  \<open>restart = None\<close> returns: the same solution vector, residual trace and iteration count,
  or the same exception.
\<close>

theorem gmres_restart_at_k_max:
  "precon_GMRES_restarted qr prec A b x0 (Some m) (Some m) epsilon
   = precon_GMRES_restarted qr prec A b x0 (Some m) None epsilon"
proof -
  have "st_k (gmres_init prec A b n x) = st_total_k (gmres_init prec A b n x)" for n x
    by (simp add: gmres_init_def Let_def)
  then show ?thesis
    by (simp add: gmres_result_returned Let_def gmres_loop_late_restart)
qed


section \<open>Runs that end in a breakdown\<close>

lemma sum_lessThan_2: "(\<Sum>l<2. f l) = f 0 + f (1::nat)"
  by (simp add: numeral_2_eq_2)

lemma all_less_2: "(\<forall>i<2. P i) \<longleftrightarrow> P 0 \<and> P (1::nat)"
  by (auto simp: less_Suc_eq numeral_2_eq_2)

lemma all_less_1: "(\<forall>i<1. P i) \<longleftrightarrow> P (0::nat)"
  by auto

text \<open>What a complete QR factorization of a matrix with two rows and one column satisfies.\<close>

lemma complete_qr_2x1:
  assumes "is_complete_qr H (Q, R)" "nrows H = 2" "ncols H = 1"
  shows "nrows Q = 2" "ncols Q = 2" "nrows R = 2" "ncols R = 1"
    "entry Q 0 0 * entry R 0 0 = entry H 0 0"
    "entry Q 1 0 * entry R 0 0 = entry H 1 0"
    "entry Q 0 0 * entry Q 0 0 + entry Q 1 0 * entry Q 1 0 = 1"
proof -
  from assms show "nrows Q = 2" "ncols Q = 2" "nrows R = 2" "ncols R = 1"
    by (simp_all add: is_complete_qr_def)
  from assms have r10: "entry R 1 0 = 0"
    by (simp add: is_complete_qr_def upper_triangular_def)
  from assms have "\<forall>i<2. \<forall>j<1. entry H i j = (\<Sum>l<2. entry Q i l * entry R l j)"
    by (simp add: is_complete_qr_def)
  then have "entry H 0 0 = (\<Sum>l<2. entry Q 0 l * entry R l 0)"
    "entry H 1 0 = (\<Sum>l<2. entry Q 1 l * entry R l 0)" by simp_all
  with r10 show "entry Q 0 0 * entry R 0 0 = entry H 0 0"
    "entry Q 1 0 * entry R 0 0 = entry H 1 0"
    by (simp_all add: sum_lessThan_2)
  from assms have "orthogonal Q" "nrows Q = 2" "ncols Q = 2"
    by (simp_all add: is_complete_qr_def)
  then have "(\<Sum>l<2. entry Q l 0 * entry Q l 0) = 1"
    by (auto simp: orthogonal_def)
  then show "entry Q 0 0 * entry Q 0 0 + entry Q 1 0 * entry Q 1 0 = 1"
    by (simp add: sum_lessThan_2)
qed

lemma qr_shapes_trivial: "qr_shapes qr_trivial"
  by (simp add: qr_shapes_def qr_trivial_def)

lemma complete_qr_trivial:
  assumes "nrows H = 2" "ncols H = 1" "entry H 1 0 = 0"
  shows "is_complete_qr H (qr_trivial H)"
  using assms
  by (simp add: is_complete_qr_def qr_trivial_def orthogonal_def upper_triangular_def
      all_less_2 all_less_1 sum_lessThan_2)

text \<open>
  The system \<open>1 \<cdot> x = 1\<close> with initial guess \<open>0\<close>: \<open>\<beta> = 1\<close>, and the only iteration
  finds \<open>A v\<^sub>0 = v\<^sub>0\<close>, so the Arnoldi step signals breakdown with the Hessenberg column
  \<open>[1, 0]\<close>.  Every complete QR factorization of that column has \<open>|Q[0,0]| = 1\<close>.
\<close>

lemma gmres_unit_run:
  assumes qr: "\<And>H. nrows H = 2 \<Longrightarrow> ncols H = 1 \<Longrightarrow> entry H 0 0 = 1 \<Longrightarrow> entry H 1 0 = 0
                 \<Longrightarrow> is_complete_qr H (qr H)"
    and eps: "epsilon < 1" and km: "k_max = None \<or> (\<exists>m\<ge>1. k_max = Some m)"
  shows "precon_GMRES_restarted qr id (mat_of_rows [[1]]) [1] (Some [0]) k_max None epsilon
         = Inr ([1], [1, 0, 1], 1)"
proof -
  let ?A = "mat_of_rows [[1]] :: mat"
  let ?s0 = "gmres_init id ?A [1] 1 [0]"
  have F: "\<bar>entry (fst (qr H)) 0 0\<bar> = 1 \<and>
           back_substitution (drop_last_row (snd (qr H))) (smul 1 (butlast (row (fst (qr H)) 0)))
             = Inr [1]"
    if Hb: "nrows H = 2" "ncols H = 1" "entry H 0 0 = 1" "entry H 1 0 = 0" for H
  proof -
    obtain Q R where QR: "qr H = (Q, R)" by (cases "qr H")
    with qr[OF Hb] have c: "is_complete_qr H (Q, R)" by simp
    note f = complete_qr_2x1[OF c Hb(1,2), unfolded Hb(3,4)]
    from f(6) f(5) have q10: "entry Q 1 0 = 0" by auto
    with f(7) have "(entry Q 0 0)\<^sup>2 = 1"
      by (simp add: power2_eq_square)
    then have q00: "\<bar>entry Q 0 0\<bar> = 1"
      by (simp add: abs_square_eq_1)
    then have "entry Q 0 0 = 1 \<or> entry Q 0 0 = - 1" by auto
    with f(5) have quot: "entry Q 0 0 / entry R 0 0 = 1" by auto
    have "back_substitution (drop_last_row R) (smul 1 (butlast (row Q 0))) = Inr [1]"
      using f(1-4) quot
      by (simp add: back_substitution_def bs_step_def tensor_defs Let_def upt_rec)
    with q00 QR show ?thesis by simp
  qed
  have s0: "st_x0 ?s0 = [0]" "st_p0 ?s0 = 1" "st_beta ?s0 = 1" "st_pk ?s0 = 1" "st_k ?s0 = 0"
    "st_total_k ?s0 = 0" "st_error_list ?s0 = [1]" "st_V ?s0 = set_col (zeros_mat 1 1) 0 [1]"
    "st_H ?s0 = zeros_mat 2 1"
    unfolding gmres_init_def Let_def by (simp_all add: tensor_defs numeral_2_eq_2)
  have arn: "arnoldi_one_iter id ?A (cat_cols (set_col (zeros_mat 1 1) 0 [1]) (zeros_mat 1 1))
               0 default_tol = ([1, 0], None)"
    by (simp add: arnoldi_one_iter_def gs_step_def tensor_defs default_tol_def Let_def)
  have it: "map_sum id returned (gmres_iteration qr id ?A [1] 1 None ?s0)
            = Inr (Some [1], [1, 0, 1], 1)"
    unfolding gmres_iteration_def Let_def case_prod_beta s0 arn
    by (simp add: F returned_def) (simp add: tensor_defs)
  then obtain s1 where s1: "gmres_iteration qr id ?A [1] 1 None ?s0 = Inr s1"
    "returned s1 = (Some [1], [1, 0, 1], 1)"
    by (cases "gmres_iteration qr id ?A [1] 1 None ?s0") auto
  then have stop: "\<not> int (st_total_k s1) < 1" by (simp add: returned_def)
  have "gmres_loop qr id ?A [1] 1 1 None epsilon ?s0
        = (case gmres_iteration qr id ?A [1] 1 None ?s0 of
             Inl e \<Rightarrow> Inl e
           | Inr s' \<Rightarrow> gmres_loop qr id ?A [1] 1 1 None epsilon s')"
    by (rule gmres_loop_step) (unfold s0, use eps in simp_all)
  also have "\<dots> = gmres_loop qr id ?A [1] 1 1 None epsilon s1"
    by (simp only: s1(1) sum.case)
  also have "\<dots> = Inr s1"
    by (rule gmres_loop_stop) (use stop in simp)
  finally have loop: "gmres_loop qr id ?A [1] 1 1 None epsilon ?s0 = Inr s1" .
  have clamp: "(case k_max of None \<Rightarrow> int 1 | Some m \<Rightarrow> if m > int 1 then int 1 else m) = 1"
    using km by (cases k_max) auto
  have n: "nrows ?A = 1" by simp
  show ?thesis
    by (rule gmres_run[OF n clamp loop s1(2)])
qed

text \<open>
  Claim C6.  On an iteration where the Arnoldi step signals breakdown the driver appends
  \<open>0\<close> to the residual trace and then, like on every iteration, appends \<open>pk\<close>.  For the
  system \<open>1 \<cdot> x = 1\<close> with initial guess \<open>0\<close> the run has one iteration and returns the
  trace \<open>[1, 0, 1]\<close>: three entries, not \<open>total_k + 1 = 2\<close>.
\<close>

theorem gmres_breakdown_trace:
  assumes "\<And>H. nrows H = 2 \<Longrightarrow> ncols H = 1 \<Longrightarrow> entry H 0 0 = 1 \<Longrightarrow> entry H 1 0 = 0
             \<Longrightarrow> is_complete_qr H (qr H)"
  shows "\<exists>x tr total_k.
           precon_GMRES_restarted qr id (mat_of_rows [[1]]) [1] (Some [0]) None None
             default_epsilon = Inr (x, tr, total_k) \<and>
           tr = [1, 0, 1] \<and> total_k = 1 \<and> length tr = total_k + 2"
proof -
  have "default_epsilon < 1" by (simp add: default_epsilon_def)
  with assms
  have "precon_GMRES_restarted qr id (mat_of_rows [[1]]) [1] (Some [0]) None None
          default_epsilon = Inr ([1], [1, 0, 1], 1)"
    by (intro gmres_unit_run) auto
  then show ?thesis by simp
qed

theorem gmres_breakdown_trace_witness:
  "\<exists>x tr total_k.
     precon_GMRES_restarted qr_trivial id (mat_of_rows [[1]]) [1] (Some [0]) None None
       default_epsilon = Inr (x, tr, total_k) \<and>
     tr = [1, 0, 1] \<and> total_k = 1 \<and> length tr = total_k + 2"
  by (rule gmres_breakdown_trace) (rule complete_qr_trivial)

section \<open>The residual estimate\<close>

text \<open>
  Claim C1.  In the loop body \<open>H[:k + 2, :k + 1]\<close> has \<open>k + 2\<close> rows, so \<open>Q\<close> has the
  columns \<open>0, \<dots>, k + 1\<close> and \<open>Q[0, k]\<close> is the last but one entry of its first row.
  For the rotation \<open>A = [[0, -1], [1, 0]]\<close>, \<open>b = [1, 0]\<close> and initial guess \<open>0\<close> the
  first Hessenberg block is the column \<open>[0, 1]\<close> and \<open>\<beta> = 1\<close>.  Every complete QR
  factorization of it has \<open>Q[0, 0] = 0\<close>, so the driver records the residual estimate
  \<open>0\<close> and stops as converged with the iterate \<open>[0, 0]\<close>, while
  \<open>\<parallel>\<beta> e\<^sub>1 - H y\<parallel> = sqrt (1 + y\<^sup>2)\<close> is at least \<open>1\<close> for every \<open>y\<close> and equal to \<open>1\<close> at
  \<open>y = 0\<close>: the estimate is not the minimal residual.
\<close>

theorem gmres_residual_estimate_not_minimal:
  assumes qr: "\<And>H. nrows H = 2 \<Longrightarrow> ncols H = 1 \<Longrightarrow> entry H 0 0 = 0 \<Longrightarrow> entry H 1 0 = 1
                 \<Longrightarrow> is_complete_qr H (qr H)"
  shows "precon_GMRES_restarted qr id (mat_of_rows [[0, - 1], [1, 0]]) [1, 0] (Some [0, 0])
           None None default_epsilon = Inr ([0, 0], [1, 0], 1) \<and>
         ls_residual 1 (mat_of_rows [[0], [1]]) [0] = 1 \<and>
         (\<forall>y. length y = 1 \<longrightarrow> 1 \<le> ls_residual 1 (mat_of_rows [[0], [1]]) y)"
proof -
  let ?A = "mat_of_rows [[0, - 1], [1, 0]] :: mat"
  let ?s0 = "gmres_init id ?A [1, 0] 2 [0, 0]"
  have F: "entry (fst (qr H)) 0 0 = 0 \<and>
           back_substitution (drop_last_row (snd (qr H))) (smul 1 (butlast (row (fst (qr H)) 0)))
             = Inr [0]"
    if Hb: "nrows H = 2" "ncols H = 1" "entry H 0 0 = 0" "entry H 1 0 = 1" for H
  proof -
    obtain Q R where QR: "qr H = (Q, R)" by (cases "qr H")
    with qr[OF Hb] have c: "is_complete_qr H (Q, R)" by simp
    note f = complete_qr_2x1[OF c Hb(1,2), unfolded Hb(3,4)]
    from f(6) have "entry R 0 0 \<noteq> 0" by auto
    with f(5) have q00: "entry Q 0 0 = 0" by simp
    have "back_substitution (drop_last_row R) (smul 1 (butlast (row Q 0))) = Inr [0]"
      using f(1-4) q00
      by (simp add: back_substitution_def bs_step_def tensor_defs Let_def upt_rec)
    with q00 QR show ?thesis by simp
  qed
  have s0: "st_x0 ?s0 = [0, 0]" "st_p0 ?s0 = 1" "st_beta ?s0 = 1" "st_pk ?s0 = 1"
    "st_k ?s0 = 0" "st_total_k ?s0 = 0" "st_error_list ?s0 = [1]"
    "st_V ?s0 = set_col (zeros_mat 2 1) 0 [1, 0]" "st_H ?s0 = zeros_mat 3 1"
    unfolding gmres_init_def Let_def by (simp_all add: tensor_defs upt_rec)
  have arn: "arnoldi_one_iter id ?A (cat_cols (set_col (zeros_mat 2 1) 0 [1, 0]) (zeros_mat 2 1))
               0 default_tol = ([0, 1], Some [0, 1])"
    by (simp add: arnoldi_one_iter_def gs_step_def tensor_defs default_tol_def Let_def upt_rec)
  have it: "map_sum id (\<lambda>s. (st_p0 s, st_pk s, returned s))
              (gmres_iteration qr id ?A [1, 0] 2 None ?s0)
            = Inr (1, 0, Some [0, 0], [1, 0], 1)"
    unfolding gmres_iteration_def Let_def case_prod_beta s0 arn
    by (simp add: F returned_def) (simp add: tensor_defs upt_rec s0)
  then obtain s1 where s1: "gmres_iteration qr id ?A [1, 0] 2 None ?s0 = Inr s1"
    "st_p0 s1 = 1" "st_pk s1 = 0" "returned s1 = (Some [0, 0], [1, 0], 1)"
    by (cases "gmres_iteration qr id ?A [1, 0] 2 None ?s0") auto
  have "gmres_loop qr id ?A [1, 0] 2 2 None default_epsilon ?s0
        = (case gmres_iteration qr id ?A [1, 0] 2 None ?s0 of
             Inl e \<Rightarrow> Inl e
           | Inr s' \<Rightarrow> gmres_loop qr id ?A [1, 0] 2 2 None default_epsilon s')"
    by (rule gmres_loop_step) (unfold s0 default_epsilon_def, simp_all)
  also have "\<dots> = gmres_loop qr id ?A [1, 0] 2 2 None default_epsilon s1"
    by (simp only: s1(1) sum.case)
  also have "\<dots> = Inr s1"
    by (rule gmres_loop_stop) (simp add: s1 default_epsilon_def)
  finally have loop: "gmres_loop qr id ?A [1, 0] 2 2 None default_epsilon ?s0 = Inr s1" .
  have n: "nrows ?A = 2" by simp
  have clamp: "(case None of None \<Rightarrow> int 2 | Some m \<Rightarrow> if m > int 2 then int 2 else m) = 2"
    by simp
  have run: "precon_GMRES_restarted qr id ?A [1, 0] (Some [0, 0]) None None
      default_epsilon = Inr ([0, 0], [1, 0], 1)"
    by (rule gmres_run[OF n clamp loop s1(4)])
  have res: "ls_residual 1 (mat_of_rows [[0], [1]]) [t] = sqrt (1 + t * t)" for t
    by (simp add: ls_residual_def tensor_defs upt_rec)
  have low: "1 \<le> ls_residual 1 (mat_of_rows [[0], [1]]) y" if "length y = 1" for y
  proof -
    from that obtain t where "y = [t]" by (cases y) auto
    then show ?thesis by (simp add: res)
  qed
  have at0: "ls_residual 1 (mat_of_rows [[0], [1]]) [0] = 1"
    by (simp add: res)
  from run at0 low show ?thesis by blast
qed

theorem gmres_residual_estimate_not_minimal_witness:
  "precon_GMRES_restarted (\<lambda>H. (mat_of_rows [[0, 1], [1, 0]], mat_of_rows [[1], [0]])) id
     (mat_of_rows [[0, - 1], [1, 0]]) [1, 0] (Some [0, 0]) None None default_epsilon
   = Inr ([0, 0], [1, 0], 1)"
proof -
  have "is_complete_qr H (mat_of_rows [[0, 1], [1, 0]], mat_of_rows [[1], [0]])"
    if "nrows H = 2" "ncols H = 1" "entry H 0 0 = 0" "entry H 1 0 = 1" for H
    unfolding is_complete_qr_def orthogonal_def upper_triangular_def Let_def prod.case
    using that
    by (simp add: all_less_2 all_less_1 sum_lessThan_2 flip: numeral_2_eq_2)
  from gmres_residual_estimate_not_minimal[of
      "\<lambda>H. (mat_of_rows [[0, 1], [1, 0]], mat_of_rows [[1], [0]])", OF this]
  show ?thesis by (rule conjunct1)
qed

section \<open>Parameters are not validated\<close>

lemma length_row [simp]: "length (row Q i) = ncols Q"
  by (simp add: row_def row_from_def)

lemma length_smul [simp]: "length (smul c v) = length v"
  by (simp add: smul_def)

lemma back_substitution_square:
  "nrows R = length y \<Longrightarrow> ncols R = length y \<Longrightarrow> \<exists>z. back_substitution R y = Inr z"
  by (simp add: back_substitution_def Let_def)

lemma norm2_nonneg [simp]: "0 \<le> norm2 v"
proof -
  have "0 \<le> sum_list (map2 (*) v v)" by (induction v) auto
  then show ?thesis by (simp add: norm2_def vsum_def vmul_def)
qed

lemma well_shaped_init: "well_shaped n (gmres_init prec A b n x0)"
  by (simp add: well_shaped_def gmres_init_def Let_def)

text \<open>
  With a QR routine that returns factors of the right shapes, an iteration below the
  dimension \<open>n\<close> passes the dimension check of the triangular solver, so it raises nothing.
\<close>

lemma gmres_iteration_ok:
  assumes qr: "qr_shapes qr" and ws: "well_shaped n s" and k: "st_k s < n"
  shows "\<exists>s1. gmres_iteration qr prec A b n None s = Inr s1 \<and> well_shaped n s1 \<and>
              st_total_k s1 = Suc (st_total_k s) \<and> st_p0 s1 = st_p0 s \<and> st_xk s1 \<noteq> None"
proof -
  define X where "X = block (set_col_prefix (cat_cols (st_H s) (zeros_mat (n + 1) 1))
      (st_k s + 2) (st_k s)
      (fst (arnoldi_one_iter prec A (cat_cols (st_V s) (zeros_mat n 1)) (st_k s) default_tol)))
      (st_k s + 2) (st_k s + 1)"
  have X: "nrows X = st_k s + 2" "ncols X = st_k s + 1"
    using ws k by (simp_all add: X_def well_shaped_def)
  from qr have sh: "nrows (fst (qr X)) = nrows X" "ncols (fst (qr X)) = nrows X"
    "nrows (snd (qr X)) = nrows X" "ncols (snd (qr X)) = ncols X"
    by (simp_all add: qr_shapes_def)
  obtain yk where yk: "back_substitution (drop_last_row (snd (qr X)))
      (smul (st_beta s) (butlast (row (fst (qr X)) 0))) = Inr yk"
    using back_substitution_square[of "drop_last_row (snd (qr X))"
        "smul (st_beta s) (butlast (row (fst (qr X)) 0))"] sh X
    by auto
  show ?thesis
    unfolding gmres_iteration_def Let_def case_prod_beta X_def[symmetric] yk
    using ws by (simp add: well_shaped_def)
qed

lemma gmres_loop_ok:
  assumes qr: "qr_shapes qr" and le: "k_max \<le> int n"
  shows "well_shaped n s \<Longrightarrow> int (st_total_k s) \<le> k_max \<Longrightarrow>
         \<exists>s'. gmres_loop qr prec A b n k_max None epsilon s = Inr s' \<and>
              st_total_k s \<le> st_total_k s' \<and> int (st_total_k s') \<le> k_max \<and>
              (st_xk s \<noteq> None \<longrightarrow> st_xk s' \<noteq> None) \<and>
              (st_pk s > epsilon * st_p0 s \<and> int (st_total_k s) < k_max
                 \<longrightarrow> st_xk s' \<noteq> None \<and> st_total_k s < st_total_k s') \<and>
              (epsilon < 0 \<and> 0 < st_p0 s \<longrightarrow> int (st_total_k s') = k_max)"
proof (induction "nat (k_max - int (st_total_k s))" arbitrary: s rule: less_induct)
  case less
  show ?case
  proof (cases "st_pk s > epsilon * st_p0 s \<and> int (st_total_k s) < k_max")
    case False
    have "epsilon * st_p0 s < st_pk s" if "epsilon < 0" "0 < st_p0 s"
    proof -
      from that have "epsilon * st_p0 s < 0" by (simp add: mult_neg_pos)
      with less.prems(1) show ?thesis by (simp add: well_shaped_def)
    qed
    with False less.prems show ?thesis
      by (auto simp: gmres_loop_stop)
  next
    case True
    then have go: "st_pk s > epsilon * st_p0 s" "int (st_total_k s) < k_max" by simp_all
    from less.prems(1) go(2) le have "st_k s < n" by (simp add: well_shaped_def)
    from gmres_iteration_ok[OF qr less.prems(1) this, of prec A b]
    obtain s1 where s1: "gmres_iteration qr prec A b n None s = Inr s1" "well_shaped n s1"
      "st_total_k s1 = Suc (st_total_k s)" "st_p0 s1 = st_p0 s" "st_xk s1 \<noteq> None"
      by blast
    have m: "nat (k_max - int (st_total_k s1)) < nat (k_max - int (st_total_k s))"
      using go(2) s1(3) by simp
    have b: "int (st_total_k s1) \<le> k_max" using go(2) s1(3) by simp
    from less.hyps[OF m s1(2) b]
    obtain s' where s': "gmres_loop qr prec A b n k_max None epsilon s1 = Inr s'"
      "st_total_k s1 \<le> st_total_k s'" "int (st_total_k s') \<le> k_max"
      "st_xk s1 \<noteq> None \<longrightarrow> st_xk s' \<noteq> None"
      "epsilon < 0 \<and> 0 < st_p0 s1 \<longrightarrow> int (st_total_k s') = k_max"
      by blast
    have "gmres_loop qr prec A b n k_max None epsilon s = Inr s'"
      using s1(1) s'(1) by (simp add: gmres_loop_step[OF go])
    with s' s1 show ?thesis by auto
  qed
qed

text \<open>
  Claim C8, as amended.  The driver validates neither \<open>k_max\<close> nor \<open>epsilon\<close>.  With a
  positive initial residual norm, a matrix of at least one row, \<open>k_max\<close> absent or at
  least \<open>1\<close>, no restart and a QR routine returning factors of the right shapes, a call
  with \<open>epsilon \<le> 0\<close> raises nothing and returns after at least one and at most
  \<open>min(k_max, n)\<close> iterations; with \<open>epsilon < 0\<close> the test \<open>pk > epsilon * p0\<close> never
  stops the loop and the driver returns after exactly \<open>min(k_max, n)\<close> iterations.
\<close>

theorem gmres_nonpositive_epsilon_accepted:
  assumes qr: "qr_shapes qr" and eps: "epsilon \<le> 0"
    and beta: "0 < norm2 (prec (vsub b (matvec A x0)))"
    and n: "0 < nrows A" and km: "\<forall>m. k_max = Some m \<longrightarrow> 1 \<le> m"
  shows "\<exists>x tr t. precon_GMRES_restarted qr prec A b (Some x0) k_max None epsilon
                     = Inr (x, tr, t) \<and>
                  1 \<le> t \<and> t \<le> nrows A \<and> (\<forall>m. k_max = Some m \<longrightarrow> int t \<le> m) \<and>
                  (epsilon < 0 \<longrightarrow>
                     t = (case k_max of None \<Rightarrow> nrows A | Some m \<Rightarrow> min (nat m) (nrows A)))"
proof -
  define n where "n = nrows A"
  define k_max' where
    "k_max' = (case k_max of None \<Rightarrow> int n | Some m \<Rightarrow> if m > int n then int n else m)"
  let ?s0 = "gmres_init prec A b n x0"
  have k1: "1 \<le> k_max'" "k_max' \<le> int n"
    using n km by (auto simp: k_max'_def n_def split: option.splits)
  have p0: "st_p0 ?s0 = norm2 (prec (vsub b (matvec A x0)))" "st_pk ?s0 = st_p0 ?s0"
    "st_total_k ?s0 = 0"
    by (simp_all add: gmres_init_def Let_def)
  have le: "epsilon * st_p0 ?s0 \<le> 0"
    using eps beta p0(1) by (simp add: mult_nonpos_nonneg)
  have pos: "0 < st_pk ?s0" using beta p0 by simp
  from le pos have go: "st_pk ?s0 > epsilon * st_p0 ?s0" by linarith
  have start: "int (st_total_k ?s0) \<le> k_max'" "int (st_total_k ?s0) < k_max'"
    using k1(1) p0(3) by simp_all
  from gmres_loop_ok[where prec = prec and A = A and b = b and epsilon = epsilon,
      OF qr k1(2) well_shaped_init start(1)]
  obtain s' where h: "gmres_loop qr prec A b n k_max' None epsilon ?s0 = Inr s' \<and>
      st_total_k ?s0 \<le> st_total_k s' \<and> int (st_total_k s') \<le> k_max' \<and>
      (st_xk ?s0 \<noteq> None \<longrightarrow> st_xk s' \<noteq> None) \<and>
      (st_pk ?s0 > epsilon * st_p0 ?s0 \<and> int (st_total_k ?s0) < k_max'
         \<longrightarrow> st_xk s' \<noteq> None \<and> st_total_k ?s0 < st_total_k s') \<and>
      (epsilon < 0 \<and> 0 < st_p0 ?s0 \<longrightarrow> int (st_total_k s') = k_max')" ..
  note s' = h[THEN conjunct1]
    and bound = h[THEN conjunct2, THEN conjunct2, THEN conjunct1]
    and ran = h[THEN conjunct2, THEN conjunct2, THEN conjunct2, THEN conjunct2, THEN conjunct1]
    and full = h[THEN conjunct2, THEN conjunct2, THEN conjunct2, THEN conjunct2, THEN conjunct2]
  from ran go start(2) have "st_xk s' \<noteq> None \<and> st_total_k ?s0 < st_total_k s'"
    by (rule_tac mp) (assumption, rule conjI)
  then have "st_xk s' \<noteq> None" "st_total_k ?s0 < st_total_k s'"
    by simp_all
  then obtain x where x: "st_xk s' = Some x" "1 \<le> st_total_k s'"
    using p0(3) by auto
  have r1: "precon_GMRES_restarted qr prec A b (Some x0) k_max None epsilon
        = Inr (x, st_error_list s', st_total_k s')"
  proof (rule gmres_run)
    show "nrows A = n" by (simp add: n_def)
    show "(case k_max of None \<Rightarrow> int n | Some m \<Rightarrow> if m > int n then int n else m) = k_max'"
      by (simp add: k_max'_def)
    show "gmres_loop qr prec A b n k_max' None epsilon (gmres_init prec A b n x0) = Inr s'"
      by (fact s')
    show "returned s' = (Some x, st_error_list s', st_total_k s')"
      by (simp add: returned_def x(1))
  qed
  have r2: "st_total_k s' \<le> nrows A" using bound k1(2) by (simp add: n_def)
  have r3: "\<forall>m. k_max = Some m \<longrightarrow> int (st_total_k s') \<le> m"
  proof (intro allI impI)
    fix m assume "k_max = Some m"
    then have "k_max' \<le> m" by (simp add: k_max'_def)
    with bound show "int (st_total_k s') \<le> m" by simp
  qed
  have r4: "epsilon < 0 \<longrightarrow> st_total_k s'
      = (case k_max of None \<Rightarrow> nrows A | Some m \<Rightarrow> min (nat m) (nrows A))"
  proof
    assume "epsilon < 0"
    with full beta p0(1) have t: "int (st_total_k s') = k_max'" by simp
    show "st_total_k s' = (case k_max of None \<Rightarrow> nrows A | Some m \<Rightarrow> min (nat m) (nrows A))"
    proof (cases k_max)
      case None
      with t show ?thesis by (simp add: k_max'_def n_def)
    next
      case (Some m)
      with km have "1 \<le> m" by simp
      with t Some show ?thesis by (auto simp: k_max'_def n_def min_def split: if_splits)
    qed
  qed
  show ?thesis
    by (intro exI[of _ x] exI[of _ "st_error_list s'"] exI[of _ "st_total_k s'"] conjI)
       (fact r1 x(2) r2 r3 r4)+
qed

theorem gmres_nonpositive_epsilon_accepted_witness:
  "qr_shapes qr_trivial \<and>
   (\<exists>x tr. precon_GMRES_restarted qr_trivial id (mat_of_rows [[1]]) [1] (Some [0]) (Some 1)
              None (- 1) = Inr (x, tr, 1))"
proof -
  have e: "(- 1 :: real) \<le> 0" by simp
  have b: "0 < norm2 (id (vsub [1] (matvec (mat_of_rows [[1]]) [0])))"
    by (simp add: tensor_defs)
  have n: "0 < nrows (mat_of_rows [[1]] :: mat)" by simp
  have k: "\<forall>m. Some (1::int) = Some m \<longrightarrow> 1 \<le> m" by simp
  from gmres_nonpositive_epsilon_accepted[where qr = qr_trivial and epsilon = "- 1"
      and prec = id and b = "[1]" and A = "mat_of_rows [[1]]" and ?x0.0 = "[0]"
      and k_max = "Some 1", OF qr_shapes_trivial e b n k]
  obtain x tr t where r: "precon_GMRES_restarted qr_trivial id (mat_of_rows [[1]]) [1]
      (Some [0]) (Some 1) None (- 1) = Inr (x, tr, t)"
    and t: "(- 1 :: real) < 0 \<longrightarrow>
      t = (case Some (1::int) of None \<Rightarrow> nrows (mat_of_rows [[1]] :: mat)
           | Some m \<Rightarrow> min (nat m) (nrows (mat_of_rows [[1]] :: mat)))"
    by blast
  from t have "t = 1" by simp
  with r qr_shapes_trivial show ?thesis by blast
qed

text \<open>
  The claim as stated fails: a call with \<open>epsilon = -1\<close> returns a result, and a call
  with \<open>k_max = 0\<close> computes the initial residual, skips the loop and raises
  \<open>UnboundLocalError\<close> at the \<open>return\<close>; neither raises a parameter error.
\<close>

theorem gmres_parameters_unchecked_counterexample:
  "precon_GMRES_restarted qr_trivial id (mat_of_rows [[1]]) [1] (Some [0]) (Some 1) None (- 1)
     = Inr ([1], [1, 0, 1], 1) \<and>
   precon_GMRES_restarted qr_trivial id (mat_of_rows [[1]]) [1] (Some [0]) (Some 0) None
     default_epsilon = Inl (UnboundLocalError ''xk'')"
proof
  have km: "Some (1::int) = None \<or> (\<exists>m\<ge>1. Some (1::int) = Some m)" by simp
  show "precon_GMRES_restarted qr_trivial id (mat_of_rows [[1]]) [1] (Some [0]) (Some 1) None
      (- 1) = Inr ([1], [1, 0, 1], 1)"
    by (rule gmres_unit_run[OF complete_qr_trivial _ km]) simp_all
  have "gmres_loop qr_trivial id (mat_of_rows [[1]]) [1] n 0 None default_epsilon s = Inr s"
    for n s
    by (rule gmres_loop_stop) simp
  then show "precon_GMRES_restarted qr_trivial id (mat_of_rows [[1]]) [1] (Some [0]) (Some 0)
      None default_epsilon = Inl (UnboundLocalError ''xk'')"
    by (simp add: precon_GMRES_restarted_def Let_def gmres_init_def)
qed

section \<open>The Arnoldi step follows its specification\<close>

lemma gs_loop:
  "m \<le> length h0 \<Longrightarrow>
   foldl (gs_step V) (h0, w0) [0..<m] = (h, w) \<Longrightarrow>
   w = orthogonalize V w0 m \<and> length h = length h0 \<and>
   (\<forall>j<m. h ! j = dot (orthogonalize V w0 j) (col V j)) \<and> (\<forall>j\<ge>m. h ! j = h0 ! j)"
proof (induction m arbitrary: h w)
  case 0
  then show ?case by simp
next
  case (Suc m)
  obtain h' w' where f: "foldl (gs_step V) (h0, w0) [0..<m] = (h', w')"
    by (cases "foldl (gs_step V) (h0, w0) [0..<m]")
  from Suc.IH[OF _ f] Suc.prems(1)
  have ih: "w' = orthogonalize V w0 m" "length h' = length h0"
    "\<forall>j<m. h' ! j = dot (orthogonalize V w0 j) (col V j)" "\<forall>j\<ge>m. h' ! j = h0 ! j"
    by simp_all
  from Suc.prems(2) have "gs_step V (foldl (gs_step V) (h0, w0) [0..<m]) m = (h, w)"
    by simp
  then have "gs_step V (h', w') m = (h, w)" by (simp only: f)
  then have hw: "h = h'[m := dot w' (col V m)]"
    "w = vsub w' (smul (dot w' (col V m)) (col V m))"
    using Suc.prems(1) ih(2) by (auto simp: gs_step_def Let_def)
  show ?case
    using ih hw Suc.prems(1) by (auto simp: Let_def nth_list_update less_Suc_eq)
qed

lemma length_col [simp]: "length (col V j) = nrows V"
  by (simp add: col_def)

lemma length_orthogonalize [simp]:
  "length w = nrows V \<Longrightarrow> length (orthogonalize V w j) = nrows V"
  by (induction j) (simp_all add: Let_def vsub_def smul_def)

lemma dot_vsub_smul:
  "length a = length b \<Longrightarrow> length b = length v \<Longrightarrow>
   dot (vsub a (smul c b)) v = dot a v - c * dot b v"
proof (induction a b v rule: list_induct3)
  case Nil
  then show ?case by (simp add: dot_def vsub_def smul_def vmul_def vsum_def)
next
  case (Cons x xs y ys z zs)
  then show ?case
    by (simp add: dot_def vsub_def smul_def vmul_def vsum_def algebra_simps)
qed

text \<open>
  Against orthonormal columns the coefficient taken from the updated vector is the one
  taken from the vector the step started with.
\<close>

lemma dot_orthogonalize:
  assumes on: "orthonormal_cols V (Suc k)" and len: "length w = nrows V"
  shows "j \<le> j' \<Longrightarrow> j' \<le> k \<Longrightarrow> dot (orthogonalize V w j) (col V j') = dot w (col V j')"
proof (induction j)
  case 0
  then show ?case by simp
next
  case (Suc j)
  then have "dot (col V j) (col V j') = 0"
    using on by (simp add: orthonormal_cols_def)
  with Suc len show ?case
    by (simp add: Let_def dot_vsub_smul)
qed

text \<open>
  Claim C2.  With \<open>w\<^sub>0 = prec (A V[:, k])\<close> and \<open>w\<^sub>j\<close> the vector after the columns
  \<open>0, \<dots>, j - 1\<close> have been removed in increasing order, the Arnoldi step returns a column
  \<open>h\<close> of length \<open>k + 2\<close> with \<open>h[j] = \<langle>w\<^sub>j, V[:, j]\<rangle>\<close> for \<open>j \<le> k\<close> and
  \<open>h[k + 1] = \<parallel>w\<^bsub>k+1\<^esub>\<parallel>\<close>; it returns no new vector when \<open>h[k + 1] \<le> tol\<close> and the
  normalized vector \<open>w\<^bsub>k+1\<^esub> / h[k + 1]\<close> otherwise.  When the columns \<open>0, \<dots>, k\<close> of \<open>V\<close>
  are orthonormal, \<open>h[j]\<close> is also \<open>\<langle>w\<^sub>0, V[:, j]\<rangle>\<close>, the coefficient of the one-pass
  (classical) scheme.  The driver calls the step with \<open>tol = default_tol = 10\<^sup>-\<^sup>1\<^sup>2\<close>.
\<close>

theorem arnoldi_one_iter_steps:
  "(let w = orthogonalize V (prec (matvec A (col V k)));
        (h, v_new) = arnoldi_one_iter prec A V k tol
    in length h = k + 2 \<and>
       (\<forall>j\<le>k. h ! j = dot (w j) (col V j)) \<and>
       h ! (k + 1) = norm2 (w (k + 1)) \<and>
       v_new = (if h ! (k + 1) \<le> tol then None else Some (sdiv (w (k + 1)) (h ! (k + 1)))) \<and>
       (orthonormal_cols V (k + 1) \<and> length (w 0) = nrows V
          \<longrightarrow> (\<forall>j\<le>k. h ! j = dot (w 0) (col V j))))"
proof -
  define w0 where "w0 = prec (matvec A (col V k))"
  obtain h w where f: "foldl (gs_step V) (zeros (k + 2), w0) [0..<k + 1] = (h, w)"
    by (cases "foldl (gs_step V) (zeros (k + 2), w0) [0..<k + 1]")
  have "k + 1 \<le> length (zeros (k + 2))" by (simp add: zeros_def)
  from gs_loop[OF this f]
  have g: "w = orthogonalize V w0 (k + 1)" "length h = k + 2"
    "\<forall>j<k + 1. h ! j = dot (orthogonalize V w0 j) (col V j)"
    by (simp_all add: zeros_def)
  have a: "arnoldi_one_iter prec A V k tol
     = (h[k + 1 := norm2 w],
        if norm2 w \<le> tol then None else Some (sdiv w (norm2 w)))"
    using f g(2) by (simp add: arnoldi_one_iter_def Let_def w0_def[symmetric])
  have c: "\<forall>j\<le>k. h ! j = dot w0 (col V j)"
    if "orthonormal_cols V (k + 1)" "length w0 = nrows V"
    using g(3) dot_orthogonalize[of V k w0] that by simp
  show ?thesis
    unfolding Let_def w0_def[symmetric] a
    using g c by (auto simp: nth_list_update)
qed

theorem arnoldi_one_iter_steps_witness:
  "orthonormal_cols (mat_of_rows [[1, 0], [0, 0]]) 1 \<and>
   arnoldi_one_iter id (mat_of_rows [[0, - 1], [1, 0]]) (mat_of_rows [[1, 0], [0, 0]]) 0
     default_tol = ([0, 1], Some [0, 1]) \<and>
   [0, 1 :: real] ! 0
     = dot (id (matvec (mat_of_rows [[0, - 1], [1, 0]]) (col (mat_of_rows [[1, 0], [0, 0]]) 0)))
         (col (mat_of_rows [[1, 0], [0, 0]]) 0) \<and>
   arnoldi_one_iter id (mat_of_rows [[1]]) (mat_of_rows [[1, 0]]) 0 default_tol
     = ([1, 0], None)"
proof -
  let ?A = "mat_of_rows [[0, - 1], [1, 0]] :: mat"
  let ?V = "mat_of_rows [[1, 0], [0, 0]] :: mat"
  let ?w = "orthogonalize ?V (id (matvec ?A (col ?V 0)))"
  have on: "orthonormal_cols ?V 1"
    by (simp add: orthonormal_cols_def tensor_defs upt_rec)
  have len: "length (?w 0) = nrows ?V"
    by (simp add: tensor_defs upt_rec)
  have run: "arnoldi_one_iter id ?A ?V 0 default_tol = ([0, 1], Some [0, 1])"
    by (simp add: arnoldi_one_iter_def gs_step_def tensor_defs default_tol_def Let_def
        upt_rec)
  from arnoldi_one_iter_steps[of ?V id ?A 0 default_tol]
  have "orthonormal_cols ?V (0 + 1) \<and> length (?w 0) = nrows ?V
        \<longrightarrow> (\<forall>j\<le>0. [0, 1 :: real] ! j = dot (?w 0) (col ?V j))"
    unfolding Let_def run prod.case by (elim conjE)
  with on len have "[0, 1 :: real] ! 0 = dot (?w 0) (col ?V 0)" by simp
  moreover have "arnoldi_one_iter id (mat_of_rows [[1]]) (mat_of_rows [[1, 0]]) 0 default_tol
      = ([1, 0], None)"
    by (simp add: arnoldi_one_iter_def gs_step_def tensor_defs default_tol_def Let_def)
  ultimately show ?thesis using on run by simp
qed

section \<open>The Poisson generator builds the five-point stencil\<close>

lemma length_filled [simp]: "length xs \<le> n \<Longrightarrow> length (filled xs n) = n"
  by (simp add: filled_def)

lemma write_at_filled:
  "i = length xs \<Longrightarrow> i < n \<Longrightarrow> write_at (filled xs n) i v = Inr (filled (xs @ [v]) n)"
proof -
  assume a: "i = length xs" "i < n"
  then obtain k where k: "n - length xs = Suc k" by (cases "n - length xs") auto
  with a have "n - Suc (length xs) = k" by simp
  with a k show ?thesis
    by (simp add: write_at_def filled_def list_update_append)
qed

lemma fold_update_filled:
  "length xs + m \<le> n \<Longrightarrow>
   fold (\<lambda>t ys. ys[t := Some v]) [length xs..<length xs + m] (filled xs n)
   = filled (xs @ replicate m v) n"
proof (induction m)
  case 0
  then show ?case by simp
next
  case (Suc m)
  then have "length (xs @ replicate m v) < n" by simp
  from write_at_filled[OF refl this, of v] Suc show ?case
    by (simp add: write_at_def replicate_append_same split: if_splits)
qed

lemma write_slice_filled:
  "a = length xs \<Longrightarrow> b = a + m \<Longrightarrow> b \<le> n \<Longrightarrow>
   write_slice (filled xs n) a b v = filled (xs @ replicate m v) n"
  by (simp add: write_slice_def fold_update_filled)

lemma then_do_Inr [simp]: "then_do (Inr x) f = f x"
  by (simp add: then_do_def)

lemma poisson_node_holds:
  assumes h: "holds n es f s" and f: "length f = N * N" and ji: "j < N" "i < N"
    and room: "length es + length (node_entries N (j, i)) \<le> n"
  shows "\<exists>s'. poisson_node N s (j, i) = Inr s' \<and>
              holds n (es @ node_entries N (j, i)) (f[j * N + i := Some (node_f N (j, i))]) s'"
proof -
  have p: "j * N + i < length f"
  proof -
    have "j * N + i < j * N + N" using ji by simp
    also have "\<dots> = Suc j * N" by simp
    also have "\<dots> \<le> N * N" using ji by (intro mult_le_mono1) simp
    finally show ?thesis using f by simp
  qed
  show ?thesis
  proof (cases "i = 0 \<or> i = N - 1 \<or> j = 0 \<or> j = N - 1")
    case True
    with room have r: "length es < n" by (simp add: node_entries_def Let_def)
    from True h r p show ?thesis
      by (simp add: poisson_node_def holds_def node_entries_def node_f_def Let_def
          write_at_filled) (simp add: write_at_def)
  next
    case False
    with room have r: "length es + 5 \<le> n" by (simp add: node_entries_def Let_def)
    have w: "write_at (filled ys n) k v = Inr (filled (ys @ [v]) n)"
      if "length ys = k" "k < n" for ys :: "'a list" and k v
      using that by (simp add: write_at_filled)
    have sl: "write_slice (filled ys n) k (Suc (Suc (Suc (Suc (Suc k))))) v
              = filled (ys @ [v, v, v, v, v]) n"
      if "length ys = k" "Suc (Suc (Suc (Suc (Suc k)))) \<le> n" for ys :: "'a list" and k v
      using that write_slice_filled[of k ys "k + 5" 5 n v] by (simp add: eval_nat_numeral)
    have sl4: "write_slice (filled ys n) (Suc k) (Suc (Suc (Suc (Suc (Suc k))))) v
               = filled (ys @ [v, v, v, v]) n"
      if "length ys = Suc k" "Suc (Suc (Suc (Suc (Suc k)))) \<le> n" for ys :: "'a list" and k v
      using that write_slice_filled[of "Suc k" ys "Suc k + 4" 4 n v]
      by (simp add: eval_nat_numeral)
    from False h r p show ?thesis
      apply (simp add: poisson_node_def holds_def node_entries_def node_f_def Let_def)
      apply (simp add: w sl sl4 eval_nat_numeral)
      apply (simp add: write_at_def)
      done
  qed
qed

lemma length_f_after [simp]: "length (f_after N f qs) = length f"
  by (induction qs arbitrary: f) (simp_all add: f_after_def)

lemma fold_err_nodes:
  assumes f: "length f = N * N"
  shows "holds n es f s \<Longrightarrow> \<forall>q\<in>set qs. fst q < N \<and> snd q < N \<Longrightarrow>
         length es + length (concat (map (node_entries N) qs)) \<le> n \<Longrightarrow>
         \<exists>s'. fold_err (poisson_node N) qs s = Inr s' \<and>
              holds n (es @ concat (map (node_entries N) qs)) (f_after N f qs) s'"
  using f
proof (induction qs arbitrary: es f s)
  case Nil
  then show ?case by (simp add: f_after_def)
next
  case (Cons q qs)
  obtain j i where q: "q = (j, i)" by (cases q)
  from Cons.prems q have ji: "j < N" "i < N" by simp_all
  from Cons.prems(3) have room: "length es + length (node_entries N (j, i)) \<le> n"
    by (simp add: q)
  from poisson_node_holds[OF Cons.prems(1) Cons.prems(4) ji room]
  obtain s1 where s1: "poisson_node N s (j, i) = Inr s1"
    "holds n (es @ node_entries N (j, i)) (f[j * N + i := Some (node_f N (j, i))]) s1"
    by blast
  have "\<exists>s'. fold_err (poisson_node N) qs s1 = Inr s' \<and>
      holds n ((es @ node_entries N (j, i)) @ concat (map (node_entries N) qs))
        (f_after N (f[j * N + i := Some (node_f N (j, i))]) qs) s'"
    using Cons.prems by (intro Cons.IH[OF s1(2)]) (simp_all add: q)
  with s1(1) show ?case
    by (simp add: q f_after_def node_index_def)
qed

lemma fold_err_append:
  "fold_err g (xs @ ys) s = (case fold_err g xs s of Inl e \<Rightarrow> Inl e | Inr s' \<Rightarrow> fold_err g ys s')"
  by (induction xs arbitrary: s) (simp_all split: sum.splits)

lemma fold_err_map: "fold_err g (map h xs) s = fold_err (\<lambda>s x. g s (h x)) xs s"
  by (induction xs arbitrary: s) (simp_all split: sum.splits)

lemma fold_err_nested:
  "fold_err (\<lambda>s j. fold_err (\<lambda>s i. g s (j, i)) is s) js s
   = fold_err g (concat (map (\<lambda>j. map (Pair j) is) js)) s"
  by (induction js arbitrary: s) (simp_all add: fold_err_append fold_err_map split: sum.splits)

lemma set_grid: "set (grid N) = {0..<N} \<times> {0..<N}"
  by (auto simp: grid_def)

lemma sum_ends:
  "(\<Sum>i = 0..<Suc (Suc M). g i) = g 0 + (\<Sum>i = Suc 0..<Suc M. g i) + (g (Suc M) :: nat)"
  by (simp add: sum.atLeast_Suc_lessThan)

lemma length_node_entries:
  "length (node_entries N (j, i)) = (if i = 0 \<or> i = N - 1 \<or> j = 0 \<or> j = N - 1 then 1 else 5)"
  by (simp add: node_entries_def Let_def)

lemma length_grid_entries:
  "length (concat (map (node_entries N) (grid N)))
   = (\<Sum>j = 0..<N. \<Sum>i = 0..<N. length (node_entries N (j, i)))"
proof -
  have "length (concat (map (node_entries N) (concat (map (\<lambda>j. map (Pair j) is) js))))
        = sum_list (map (\<lambda>j. sum_list (map (\<lambda>i. length (node_entries N (j, i))) is)) js)"
    for "is" js
    by (induction js) (simp_all add: length_concat comp_def)
  then show ?thesis
    by (simp add: grid_def interv_sum_list_conv_sum_set_nat)
qed

lemma row_count:
  assumes "j < Suc (Suc M)"
  shows "(\<Sum>i = 0..<Suc (Suc M). length (node_entries (Suc (Suc M)) (j, i)))
         = (if j = 0 \<or> j = Suc M then Suc (Suc M) else 5 * M + 2)"
proof (cases "j = 0 \<or> j = Suc M")
  case True
  then have "(\<Sum>i = 0..<Suc (Suc M). length (node_entries (Suc (Suc M)) (j, i)))
             = (\<Sum>i = 0..<Suc (Suc M). 1)"
    by (intro sum.cong) (auto simp: length_node_entries)
  with True show ?thesis by simp
next
  case False
  have mid: "(\<Sum>i = Suc 0..<Suc M. length (node_entries (Suc (Suc M)) (j, i)))
        = (\<Sum>i = Suc 0..<Suc M. 5)"
    using False by (intro sum.cong) (auto simp: length_node_entries)
  have "(\<Sum>i = 0..<Suc (Suc M). length (node_entries (Suc (Suc M)) (j, i)))
        = length (node_entries (Suc (Suc M)) (j, 0)) + (\<Sum>i = Suc 0..<Suc M. 5)
          + length (node_entries (Suc (Suc M)) (j, Suc M))"
    by (simp only: sum_ends mid)
  also have "\<dots> = 5 * M + 2"
    by (simp add: length_node_entries)
  finally show ?thesis using False by simp
qed

lemma grid_count:
  assumes "2 \<le> N"
  shows "length (concat (map (node_entries N) (grid N))) = nelements N"
proof -
  from assms obtain M where N: "N = Suc (Suc M)"
    by (metis Suc_le_D numeral_2_eq_2 Suc_le_mono)
  have "(\<Sum>j = 0..<N. \<Sum>i = 0..<N. length (node_entries N (j, i)))
        = (\<Sum>j = 0..<Suc (Suc M). if j = 0 \<or> j = Suc M then Suc (Suc M) else 5 * M + 2)"
    unfolding N by (intro sum.cong refl row_count) simp
  also have "\<dots> = Suc (Suc M) + (\<Sum>j = Suc 0..<Suc M. 5 * M + 2) + Suc (Suc M)"
  proof -
    have mid: "(\<Sum>j = Suc 0..<Suc M. if j = 0 \<or> j = Suc M then Suc (Suc M) else 5 * M + 2)
          = (\<Sum>j = Suc 0..<Suc M. 5 * M + 2)"
      by (intro sum.cong) auto
    have "(\<Sum>j = 0..<Suc (Suc M). if j = 0 \<or> j = Suc M then Suc (Suc M) else 5 * M + 2)
          = (if (0::nat) = 0 \<or> 0 = Suc M then Suc (Suc M) else 5 * M + 2)
            + (\<Sum>j = Suc 0..<Suc M. 5 * M + 2)
            + (if Suc M = 0 \<or> Suc M = Suc M then Suc (Suc M) else 5 * M + 2)"
      by (simp only: sum_ends mid)
    then show ?thesis by simp
  qed
  also have "\<dots> = 5 * M * M + 4 * M + 4"
    by (simp add: algebra_simps)
  also have "\<dots> = nelements N"
  proof -
    have "5 * (int N)\<^sup>2 - 16 * int N + 16 = int (5 * M * M + 4 * M + 4)"
      by (simp add: N power2_eq_square algebra_simps)
    then show ?thesis by (simp only: nelements_def nat_int)
  qed
  finally show ?thesis by (simp add: length_grid_entries)
qed

lemma filled_full: "length xs = n \<Longrightarrow> filled xs n = map Some xs"
  by (simp add: filled_def)

lemma coo_entry_full:
  assumes "coo_data M = map Some (map (snd \<circ> snd) es)"
    and "coo_row M = map Some (map fst es)"
    and "coo_col M = map Some (map (fst \<circ> snd) es)"
  shows "coo_entry M r c = sum_list (map (hit r c) es)"
proof -
  have "map (\<lambda>t. if coo_row M ! t = Some r \<and> coo_col M ! t = Some c
                   then (case coo_data M ! t of Some d \<Rightarrow> d | None \<Rightarrow> 0) else 0)
            [0..<length es]
        = map (\<lambda>t. hit r c (es ! t)) [0..<length es]"
    using assms by (intro map_cong refl) (simp add: hit_def)
  also have "\<dots> = map (hit r c) es"
    by (simp add: map_nth flip: map_map[of "hit r c" "(!) es", unfolded comp_def])
  finally show ?thesis using assms(1) by (simp add: coo_entry_def)
qed

lemma sum_list_concat_map:
  "sum_list (map g (concat (map h qs))) = sum_list (map (\<lambda>q. sum_list (map g (h q))) qs)"
  by (induction qs) simp_all

lemma sum_list_single:
  "distinct xs \<Longrightarrow> x \<in> set xs \<Longrightarrow> \<forall>y\<in>set xs. y \<noteq> x \<longrightarrow> G y = (0::real) \<Longrightarrow>
   sum_list (map G xs) = G x"
proof (induction xs)
  case Nil
  then show ?case by simp
next
  case (Cons a xs)
  show ?case
  proof (cases "a = x")
    case True
    with Cons.prems have "\<forall>y\<in>set xs. G y = 0" by auto
    then have "sum_list (map G xs) = 0" by (induction xs) simp_all
    with True show ?thesis by simp
  next
    case False
    with Cons show ?thesis by auto
  qed
qed

lemma grid_product: "grid N = List.product [0..<N] [0..<N]"
  by (simp add: grid_def product_concat_map)

lemma distinct_grid: "distinct (grid N)"
  by (simp add: grid_product distinct_product)

lemma node_index_inj:
  fixes N :: nat
  assumes "i < N" "i' < N" "j * N + i = j' * N + i'"
  shows "j = j' \<and> i = i'"
proof -
  from assms(1) have "(j * N + i) div N = j" "(j * N + i) mod N = i" by simp_all
  moreover from assms(2) have "(j' * N + i') div N = j'" "(j' * N + i') mod N = i'"
    by simp_all
  ultimately show ?thesis using assms(3) by simp
qed

lemma f_after_nth:
  "q \<in> set qs \<Longrightarrow> node_index N q < length f \<Longrightarrow>
   \<forall>q'\<in>set qs. node_index N q' = node_index N q \<longrightarrow> node_f N q' = node_f N q \<Longrightarrow>
   f_after N f qs ! node_index N q = Some (node_f N q)"
proof (induction qs arbitrary: f rule: rev_induct)
  case Nil
  then show ?case by simp
next
  case (snoc a qs)
  have step: "f_after N f (qs @ [a]) = (f_after N f qs)[node_index N a := Some (node_f N a)]"
    by (simp add: f_after_def)
  show ?case
  proof (cases "node_index N a = node_index N q")
    case True
    with snoc.prems show ?thesis by (simp add: step)
  next
    case False
    with snoc.prems have "q \<in> set qs" by auto
    from snoc.IH[OF this snoc.prems(2)] snoc.prems(3) False show ?thesis
      by (simp add: step)
  qed
qed

lemma discretise_poisson_run:
  assumes N: "2 \<le> N"
  shows "discretise_poisson N =
    Inr (\<lparr>coo_data = map Some (map (snd \<circ> snd) (concat (map (node_entries N) (grid N)))),
          coo_row = map Some (map fst (concat (map (node_entries N) (grid N)))),
          coo_col = map Some (map (fst \<circ> snd) (concat (map (node_entries N) (grid N)))),
          coo_shape = (N\<^sup>2, N\<^sup>2)\<rparr>,
         f_after N (replicate (N * N) None) (grid N))"
proof -
  define es where "es = concat (map (node_entries N) (grid N))"
  define s0 where "s0 = \<lparr>ps_row_ind = replicate (nelements N) None,
      ps_col_ind = replicate (nelements N) None, ps_data = replicate (nelements N) None,
      ps_f = replicate (N * N) None, ps_count = 0\<rparr>"
  have len: "length es = nelements N"
    unfolding es_def by (rule grid_count[OF N])
  have h0: "holds (nelements N) [] (replicate (N * N) None) s0"
    by (simp add: holds_def s0_def filled_def)
  have nodes: "\<forall>q\<in>set (grid N). fst q < N \<and> snd q < N"
    by (auto simp: set_grid)
  have room: "length ([] :: (nat \<times> nat \<times> real) list)
      + length (concat (map (node_entries N) (grid N))) \<le> nelements N"
    using len by (simp add: es_def)
  from fold_err_nodes[OF _ h0 nodes room]
  obtain s' where s': "fold_err (poisson_node N) (grid N) s0 = Inr s'"
    "holds (nelements N) ([] @ es) (f_after N (replicate (N * N) None) (grid N)) s'"
    unfolding es_def by auto
  have loops: "fold_err (\<lambda>s j. fold_err (\<lambda>s i. poisson_node N s (j, i)) [0..<N] s) [0..<N] s0
      = Inr s'"
    using s'(1) by (simp add: fold_err_nested grid_def)
  from s'(2) len have fields: "ps_data s' = map Some (map (snd \<circ> snd) es)"
    "ps_row_ind s' = map Some (map fst es)" "ps_col_ind s' = map Some (map (fst \<circ> snd) es)"
    "ps_f s' = f_after N (replicate (N * N) None) (grid N)"
    by (simp_all add: holds_def filled_full)
  show ?thesis
    unfolding discretise_poisson_def Let_def s0_def[symmetric] loops
    by (simp add: fields es_def)
qed

lemma node_contribution_other:
  assumes "i < N" "i' < N" "(j', i') \<noteq> (j, i)"
  shows "sum_list (map (hit (j * N + i) c) (node_entries N (j', i'))) = 0"
proof -
  from assms node_index_inj[of i' N i j' j] have "j' * N + i' \<noteq> j * N + i" by auto
  then show ?thesis
    by (simp add: node_entries_def hit_def Let_def)
qed

lemma node_contribution_boundary:
  assumes "i = 0 \<or> i = N - 1 \<or> j = 0 \<or> j = N - 1"
  shows "sum_list (map (hit (j * N + i) c) (node_entries N (j, i)))
         = (if c = j * N + i then 1 else 0)"
  using assms by (auto simp: node_entries_def hit_def Let_def)

lemma node_contribution_interior:
  assumes "\<not> (i = 0 \<or> i = N - 1 \<or> j = 0 \<or> j = N - 1)" "i < N" "j < N"
  shows "sum_list (map (hit (j * N + i) c) (node_entries N (j, i)))
         = (if c = j * N + i then 4 * (real N - 1)\<^sup>2
            else if c = j * N + (i + 1) \<or> c = j * N + (i - 1) \<or> c = (j + 1) * N + i
                    \<or> c = (j - 1) * N + i
            then - (real N - 1)\<^sup>2 else 0)"
proof -
  define P where "P = j * N + i"
  from assms have ij: "1 \<le> i" "1 \<le> j" "3 \<le> N" by auto
  then obtain j0 where j0: "j = Suc j0" by (cases j) auto
  have up: "(j + 1) * N + i = P + N" by (simp add: P_def algebra_simps)
  have down: "(j - 1) * N + i + N = P" by (simp add: P_def j0 algebra_simps)
  have PN: "N + 1 \<le> P" using ij by (simp add: P_def j0)
  from down have down': "(j - 1) * N + i = P - N" by simp
  have right: "j * N + (i + 1) = P + 1" "j * N + i + 1 = P + 1" by (simp_all add: P_def)
  have left: "j * N + (i - 1) = P - 1" "j * N + i - 1 = P - 1" using ij by (simp_all add: P_def)
  have ne: "node_entries N (j, i)
      = [(P, P, 4 * (real N - 1)\<^sup>2), (P, P + 1, - (real N - 1)\<^sup>2),
         (P, P - 1, - (real N - 1)\<^sup>2), (P, P + N, - (real N - 1)\<^sup>2),
         (P, P - N, - (real N - 1)\<^sup>2)]"
    using assms(1)
    unfolding node_entries_def Let_def prod.case up down' right left P_def[symmetric]
    by simp
  have goal: "sum_list (map (hit P c) (node_entries N (j, i)))
      = (if c = P then 4 * (real N - 1)\<^sup>2
         else if c = P + 1 \<or> c = P - 1 \<or> c = P + N \<or> c = P - N
         then - (real N - 1)\<^sup>2 else 0)"
  proof -
    consider "c = P" | "c = P + 1" | "c = P - 1" | "c = P + N" | "c = P - N"
      | "c \<noteq> P" "c \<noteq> P + 1" "c \<noteq> P - 1" "c \<noteq> P + N" "c \<noteq> P - N"
      by blast
    then show ?thesis
    proof cases
      case 1
      with PN ij(3) show ?thesis by (auto simp: ne hit_def)
    next
      case 2
      with PN ij(3) show ?thesis by (auto simp: ne hit_def)
    next
      case 3
      with PN ij(3) show ?thesis by (auto simp: ne hit_def)
    next
      case 4
      with PN ij(3) show ?thesis by (auto simp: ne hit_def)
    next
      case 5
      with PN ij(3) show ?thesis by (auto simp: ne hit_def)
    next
      case 6
      then show ?thesis by (auto simp: ne hit_def)
    qed
  qed
  show ?thesis
    unfolding up down' right left P_def[symmetric] by (rule goal)
qed

lemma grid_row_entry:
  assumes "j < N" "i < N"
  shows "sum_list (map (hit (j * N + i) c) (concat (map (node_entries N) (grid N))))
         = sum_list (map (hit (j * N + i) c) (node_entries N (j, i)))"
proof -
  let ?G = "\<lambda>q. sum_list (map (hit (j * N + i) c) (node_entries N q))"
  have "(j, i) \<in> set (grid N)" using assms by (simp add: set_grid)
  moreover have "\<forall>q\<in>set (grid N). q \<noteq> (j, i) \<longrightarrow> ?G q = 0"
  proof (intro ballI impI)
    fix q assume q: "q \<in> set (grid N)" "q \<noteq> (j, i)"
    obtain j' i' where [simp]: "q = (j', i')" by (cases q)
    from q have "i' < N" by (simp add: set_grid)
    with q(2) assms show "?G q = 0"
      by (simp add: node_contribution_other)
  qed
  ultimately have "sum_list (map ?G (grid N)) = ?G (j, i)"
    by (intro sum_list_single distinct_grid)
  then show ?thesis by (simp add: sum_list_concat_map)
qed

lemma grid_f:
  assumes "j < N" "i < N"
  shows "f_after N (replicate (N * N) None) (grid N) ! (j * N + i) = Some (node_f N (j, i))"
proof -
  have "j * N + i < j * N + N" using assms by simp
  also have "\<dots> = Suc j * N" by simp
  also have "\<dots> \<le> N * N" using assms by (intro mult_le_mono1) simp
  finally have p: "node_index N (j, i) < length (replicate (N * N) (None :: real option))"
    by (simp add: node_index_def)
  have mem: "(j, i) \<in> set (grid N)" using assms by (simp add: set_grid)
  have uniq: "\<forall>q'\<in>set (grid N). node_index N q' = node_index N (j, i)
      \<longrightarrow> node_f N q' = node_f N (j, i)"
  proof (intro ballI impI)
    fix q' assume q: "q' \<in> set (grid N)" "node_index N q' = node_index N (j, i)"
    obtain j' i' where q': "q' = (j', i')" by (cases q')
    from q(1) have i': "i' < N" by (simp add: set_grid q')
    from q(2) have eq: "j' * N + i' = j * N + i" by (simp add: node_index_def q')
    from node_index_inj[OF i' assms(2) eq] have "q' = (j, i)" by (simp add: q')
    then show "node_f N q' = node_f N (j, i)" by simp
  qed
  from f_after_nth[OF mem p uniq] show ?thesis
    by (simp only: node_index_def fst_conv snd_conv)
qed

text \<open>
  Claim C9.  For \<open>N \<ge> 2\<close> the generator raises nothing and returns a matrix of shape
  \<open>N\<^sup>2 \<times> N\<^sup>2\<close> and a forcing vector of length \<open>N\<^sup>2\<close>; the \<open>nelements\<close> entries of the
  three arrays are all written.  The row of a boundary point (\<open>i\<close> or \<open>j\<close> equal to \<open>0\<close>
  or \<open>N - 1\<close>) is the identity row and its forcing term is \<open>0\<close>; the row of an interior
  point has \<open>4 (N - 1)\<^sup>2\<close> on the diagonal, \<open>- (N - 1)\<^sup>2\<close> in the columns of its four
  neighbours and \<open>0\<close> elsewhere, and its forcing term is \<open>1\<close>.
\<close>

theorem discretise_poisson_stencil:
  assumes N: "2 \<le> N"
  shows "\<exists>M f. discretise_poisson N = Inr (M, f) \<and>
           coo_shape M = (N\<^sup>2, N\<^sup>2) \<and> length f = N\<^sup>2 \<and>
           coo_initialized M \<and> length (coo_data M) = nelements N \<and>
           (\<forall>j<N. \<forall>i<N.
              if i = 0 \<or> i = N - 1 \<or> j = 0 \<or> j = N - 1
              then f ! (j * N + i) = Some 0 \<and>
                   (\<forall>c. coo_entry M (j * N + i) c = (if c = j * N + i then 1 else 0))
              else f ! (j * N + i) = Some 1 \<and>
                   (\<forall>c. coo_entry M (j * N + i) c =
                      (if c = j * N + i then 4 * (real N - 1)\<^sup>2
                       else if c = j * N + (i + 1) \<or> c = j * N + (i - 1)
                               \<or> c = (j + 1) * N + i \<or> c = (j - 1) * N + i
                       then - (real N - 1)\<^sup>2 else 0)))"
proof -
  define es where "es = concat (map (node_entries N) (grid N))"
  define M where "M = \<lparr>coo_data = map Some (map (snd \<circ> snd) es),
      coo_row = map Some (map fst es), coo_col = map Some (map (fst \<circ> snd) es),
      coo_shape = (N\<^sup>2, N\<^sup>2)\<rparr>"
  define f where "f = f_after N (replicate (N * N) None) (grid N)"
  have run: "discretise_poisson N = Inr (M, f)"
    unfolding M_def f_def es_def by (rule discretise_poisson_run[OF N])
  have shape: "coo_shape M = (N\<^sup>2, N\<^sup>2)" by (simp add: M_def)
  have lf: "length f = N\<^sup>2" by (simp add: f_def power2_eq_square)
  have init: "coo_initialized M" by (auto simp: coo_initialized_def M_def)
  have len: "length (coo_data M) = nelements N"
    using grid_count[OF N] by (simp add: M_def es_def)
  have entry: "coo_entry M r c = sum_list (map (hit r c) es)" for r c
    by (rule coo_entry_full) (simp_all add: M_def)
  have nodes: "if i = 0 \<or> i = N - 1 \<or> j = 0 \<or> j = N - 1
      then f ! (j * N + i) = Some 0 \<and>
           (\<forall>c. coo_entry M (j * N + i) c = (if c = j * N + i then 1 else 0))
      else f ! (j * N + i) = Some 1 \<and>
           (\<forall>c. coo_entry M (j * N + i) c =
              (if c = j * N + i then 4 * (real N - 1)\<^sup>2
               else if c = j * N + (i + 1) \<or> c = j * N + (i - 1)
                       \<or> c = (j + 1) * N + i \<or> c = (j - 1) * N + i
               then - (real N - 1)\<^sup>2 else 0))"
    if ji: "j < N" "i < N" for j i
  proof (cases "i = 0 \<or> i = N - 1 \<or> j = 0 \<or> j = N - 1")
    case True
    have a: "f ! (j * N + i) = Some 0"
      using grid_f[OF ji] True by (simp add: f_def node_f_def)
    have b: "\<forall>c. coo_entry M (j * N + i) c = (if c = j * N + i then 1 else 0)"
    proof
      fix c
      show "coo_entry M (j * N + i) c = (if c = j * N + i then 1 else 0)"
        unfolding entry es_def grid_row_entry[OF ji]
        by (rule node_contribution_boundary[OF True])
    qed
    show ?thesis
      unfolding if_P[OF True] using a b by (rule conjI)
  next
    case False
    have a: "f ! (j * N + i) = Some 1"
      using grid_f[OF ji] False by (simp add: f_def node_f_def)
    have b: "\<forall>c. coo_entry M (j * N + i) c =
        (if c = j * N + i then 4 * (real N - 1)\<^sup>2
         else if c = j * N + (i + 1) \<or> c = j * N + (i - 1)
                 \<or> c = (j + 1) * N + i \<or> c = (j - 1) * N + i
         then - (real N - 1)\<^sup>2 else 0)"
    proof
      fix c
      show "coo_entry M (j * N + i) c =
        (if c = j * N + i then 4 * (real N - 1)\<^sup>2
         else if c = j * N + (i + 1) \<or> c = j * N + (i - 1)
                 \<or> c = (j + 1) * N + i \<or> c = (j - 1) * N + i
         then - (real N - 1)\<^sup>2 else 0)"
        unfolding entry es_def grid_row_entry[OF ji]
        by (rule node_contribution_interior[OF False ji(2,1)])
    qed
    show ?thesis
      unfolding if_not_P[OF False] using a b by (rule conjI)
  qed
  show ?thesis
  proof (intro exI conjI allI impI)
    show "discretise_poisson N = Inr (M, f)" by (rule run)
    show "coo_shape M = (N\<^sup>2, N\<^sup>2)" by (rule shape)
    show "length f = N\<^sup>2" by (rule lf)
    show "coo_initialized M" by (rule init)
    show "length (coo_data M) = nelements N" by (rule len)
  next
    fix j i assume "j < N" "i < N"
    then show "if i = 0 \<or> i = N - 1 \<or> j = 0 \<or> j = N - 1
      then f ! (j * N + i) = Some 0 \<and>
           (\<forall>c. coo_entry M (j * N + i) c = (if c = j * N + i then 1 else 0))
      else f ! (j * N + i) = Some 1 \<and>
           (\<forall>c. coo_entry M (j * N + i) c =
              (if c = j * N + i then 4 * (real N - 1)\<^sup>2
               else if c = j * N + (i + 1) \<or> c = j * N + (i - 1)
                       \<or> c = (j + 1) * N + i \<or> c = (j - 1) * N + i
               then - (real N - 1)\<^sup>2 else 0))"
      by (rule nodes)
  qed
qed

theorem discretise_poisson_stencil_witness:
  "(2::nat) \<le> 3 \<and>
   (\<exists>M f. discretise_poisson 3 = Inr (M, f) \<and> coo_shape M = (9, 9) \<and>
      f ! 4 = Some 1 \<and> f ! 0 = Some 0 \<and>
      coo_entry M 4 4 = 16 \<and> coo_entry M 4 5 = - 4 \<and> coo_entry M 4 3 = - 4 \<and>
      coo_entry M 4 7 = - 4 \<and> coo_entry M 4 1 = - 4 \<and> coo_entry M 4 0 = 0 \<and>
      coo_entry M 0 0 = 1 \<and> coo_entry M 0 1 = 0)"
proof -
  have le: "(2::nat) \<le> 3" by simp
  from discretise_poisson_stencil[OF le]
  obtain M f where run: "discretise_poisson 3 = Inr (M, f)"
    and shape: "coo_shape M = (3\<^sup>2, 3\<^sup>2)"
    and nodes: "\<forall>j<3. \<forall>i<3.
              if i = 0 \<or> i = 3 - 1 \<or> j = 0 \<or> j = 3 - 1
              then f ! (j * 3 + i) = Some 0 \<and>
                   (\<forall>c. coo_entry M (j * 3 + i) c = (if c = j * 3 + i then 1 else 0))
              else f ! (j * 3 + i) = Some 1 \<and>
                   (\<forall>c. coo_entry M (j * 3 + i) c =
                      (if c = j * 3 + i then 4 * (real 3 - 1)\<^sup>2
                       else if c = j * 3 + (i + 1) \<or> c = j * 3 + (i - 1)
                               \<or> c = (j + 1) * 3 + i \<or> c = (j - 1) * 3 + i
                       then - (real 3 - 1)\<^sup>2 else 0))"
    by blast
  from nodes[rule_format, of 1 1]
  have mid: "f ! 4 = Some 1" "coo_entry M 4 c =
      (if c = 4 then 16 else if c = 5 \<or> c = 3 \<or> c = 7 \<or> c = 1 then - 4 else 0)" for c
    by simp_all
  from nodes[rule_format, of 0 0]
  have corner: "f ! 0 = Some 0" "coo_entry M 0 c = (if c = 0 then 1 else 0)" for c
    by simp_all
  from run shape show ?thesis
    by (simp add: mid corner)
qed

end
